theory Spec2Isabelle
  imports Main
begin

section \<open>Constants of \<^verbatim>\<open>sopa_server.c\<close>\<close>

text \<open>
  \<^verbatim>\<open>#define HTTP_TIMEOUT 5\<close>: timeout in seconds for idle connections.
  \<^verbatim>\<open>INT_MAX\<close> is the sentinel that \<^verbatim>\<open>main\<close> stores in \<^verbatim>\<open>youngest\<close>.
\<close>

definition HTTP_TIMEOUT :: int where
  "HTTP_TIMEOUT = 5"

definition INT_MAX :: int where
  "INT_MAX = 2147483647"

section \<open>Data model\<close>

text \<open>
  \<^verbatim>\<open>struct client { int fd; int state; struct client *next; time_t last; unsigned write_ofs; }\<close>.
  The \<^verbatim>\<open>next\<close> pointer is the list structure below. \<^verbatim>\<open>last\<close> is called
  \<open>last_ts\<close> here (the name \<open>last\<close> is taken by lists). \<^verbatim>\<open>write_ofs\<close> is a
  32-bit \<^verbatim>\<open>unsigned\<close>: a natural number, with the wrap-around written out
  where the code adds to it.
\<close>

record client =
  fd :: int
  state :: int
  last_ts :: int
  write_ofs :: nat

text \<open>The lines that \<^verbatim>\<open>log_info\<close> prints. The \<^verbatim>\<open>log_debug\<close> lines are left out.\<close>

datatype log =
    New_client int
  | Closing_completed int
  | Closing_errno int
  | Closing_timeout int
  | Closing_disconnect int

text \<open>
  The globals of the program: the two intrusive lists (head first), \<^verbatim>\<open>fd_max\<close>,
  \<^verbatim>\<open>youngest\<close>, the two descriptor sets, the response header \<^verbatim>\<open>hdr\<close> (its first
  \<^verbatim>\<open>hdr_len\<close> bytes) and the body \<^verbatim>\<open>msg\<close> (its \<^verbatim>\<open>msg_len\<close> bytes). Three more
  fields record what the program does to the outside: the descriptors passed to
  \<^verbatim>\<open>close\<close>, the bytes each \<^verbatim>\<open>write\<close> call got accepted (with its descriptor),
  and the \<^verbatim>\<open>log_info\<close> lines.
\<close>

record server =
  reader_head :: "client list"
  writer_head :: "client list"
  fd_max :: int
  youngest :: int
  rfds :: "int set"
  wfds :: "int set"
  hdr :: string
  msg :: string
  closed :: "int list"
  wire :: "(int \<times> string) list"
  stderr :: "log list"

text \<open>
  A \<^verbatim>\<open>struct client **prev\<close> is a place in one of the two lists: \<open>(h, 0)\<close> is the
  head pointer itself, \<open>(h, Suc i)\<close> is the \<^verbatim>\<open>next\<close> field of the node \<open>i\<close> of that
  list. \<^verbatim>\<open>*prev\<close> is the node at that index (\<^verbatim>\<open>NULL\<close> when the index is the length).
\<close>

datatype head = Reader_head | Writer_head

type_synonym place = "head \<times> nat"

definition list_of :: "head \<Rightarrow> server \<Rightarrow> client list" where
  "list_of h s = (case h of Reader_head \<Rightarrow> reader_head s | Writer_head \<Rightarrow> writer_head s)"

definition set_list :: "head \<Rightarrow> client list \<Rightarrow> server \<Rightarrow> server" where
  "set_list h xs s =
     (case h of Reader_head \<Rightarrow> s\<lparr>reader_head := xs\<rparr> | Writer_head \<Rightarrow> s\<lparr>writer_head := xs\<rparr>)"

definition node :: "place \<Rightarrow> server \<Rightarrow> client" where
  "node p s = list_of (fst p) s ! snd p"

definition is_node :: "place \<Rightarrow> server \<Rightarrow> bool" where
  "is_node p s = (snd p < length (list_of (fst p) s))"

text \<open>An assignment through \<^verbatim>\<open>cl->...\<close>, for the node \<^verbatim>\<open>cl\<close> at place \<open>p\<close>.\<close>

definition upd :: "place \<Rightarrow> (client \<Rightarrow> client) \<Rightarrow> server \<Rightarrow> server" where
  "upd p f s = set_list (fst p) ((list_of (fst p) s)[snd p := f (node p s)]) s"

text \<open>\<^verbatim>\<open>*prev = cl->next\<close>: the node at index \<open>i\<close> leaves the list.\<close>

definition unlink :: "nat \<Rightarrow> 'a list \<Rightarrow> 'a list" where
  "unlink i xs = take i xs @ drop (Suc i) xs"

text \<open>
  How a run ends other than by returning: \<^verbatim>\<open>perror_and_die\<close>, a failed \<^verbatim>\<open>assert\<close>
  (the program is taken as built without \<^verbatim>\<open>NDEBUG\<close>), or a call of \<^verbatim>\<open>read\<close> or
  \<^verbatim>\<open>write\<close> for which the environment's script has no entry left. Not modelled: a
  failing \<^verbatim>\<open>calloc\<close>, and descriptors beyond \<^verbatim>\<open>FD_SETSIZE\<close>.
\<close>

datatype error = Die string | Assertion string | Starved

section \<open>The request recognizer: \<^verbatim>\<open>client_read\<close> and \<^verbatim>\<open>do_get\<close>\<close>

text \<open>
  The loop \<^verbatim>\<open>while (len > 0) { switch (cl->state) ... buf++; len--; }\<close> of
  \<^verbatim>\<open>client_read\<close>, on the value of \<^verbatim>\<open>cl->state\<close> and the bytes read. Its three
  exits: \<^verbatim>\<open>return 0\<close> inside the switch (with the state reached), the call of
  \<^verbatim>\<open>do_get\<close> followed by \<^verbatim>\<open>return 1\<close>, and the \<^verbatim>\<open>return 1\<close> after the loop (with
  the state reached). A state outside 0..6 matches no case: the byte is consumed.
\<close>

datatype scan = Return0 int | Do_get | Return1 int

fun while_len :: "int \<Rightarrow> string \<Rightarrow> scan" where
  "while_len st [] = Return1 st"
| "while_len st (ch # buf) =
     (if st = 0 then (if ch = CHR ''G'' then while_len (st + 1) buf else Return0 st)
      else if st = 1 then (if ch = CHR ''E'' then while_len (st + 1) buf else Return0 st)
      else if st = 2 then (if ch = CHR ''T'' then while_len (st + 1) buf else Return0 st)
      else if st = 3 then (if ch = CHR '' '' then while_len (st + 1) buf else Return0 st)
      else if st = 4 then (if ch = CHR 0x0A then while_len (st + 1) buf else while_len st buf)
      else if st = 5 then
        (if ch = CHR 0x0D \<or> ch = CHR 0x0A then Do_get else while_len (st + 1) buf)
      else if st = 6 then (if ch = CHR 0x0A then while_len 5 buf else while_len st buf)
      else while_len st buf)"

text \<open>
  \<^verbatim>\<open>do_get(cl, prev)\<close>: \<^verbatim>\<open>*prev = cl->next; cl->next = writer_head; writer_head = cl;\<close>
  then \<^verbatim>\<open>FD_CLR(cl->fd, &rfds); FD_SET(cl->fd, &wfds); cl->write_ofs = 0; cl->state = 0\<close>.
  The node is at index 0 of the writer list afterwards.
\<close>

definition do_get :: "place \<Rightarrow> server \<Rightarrow> server" where
  "do_get p s =
     (let cl = node p s;
          s1 = set_list (fst p) (unlink (snd p) (list_of (fst p) s)) s;
          s2 = s1\<lparr>writer_head := cl # writer_head s1\<rparr>;
          s3 = s2\<lparr>rfds := rfds s2 - {fd cl}, wfds := insert (fd cl) (wfds s2)\<rparr>
      in upd (Writer_head, 0) (\<lambda>c. c\<lparr>write_ofs := 0, state := 0\<rparr>) s3)"

text \<open>
  What the environment gives one call of \<^verbatim>\<open>client_read\<close>: the result of
  \<^verbatim>\<open>read(cl->fd, buf, 64)\<close> (\<open>None\<close> for \<open>-1\<close>, otherwise the bytes read, \<^verbatim>\<open>len\<close>
  being their number, 0 at end of stream) and the value that the following
  \<^verbatim>\<open>time(&cl->last)\<close> stores. \<^verbatim>\<open>read\<close> returns at most 64 bytes; the model takes
  the bytes as given, however many.

  A handler returns its \<^verbatim>\<open>int\<close>, the place where the node \<^verbatim>\<open>cl\<close> is afterwards
  (it moves only in \<^verbatim>\<open>do_get\<close>) and the new globals. \<^verbatim>\<open>do_get\<close> overwrites
  \<^verbatim>\<open>cl->state\<close>, so the state that the loop had reached (5) is not stored before it.
\<close>

type_synonym rd_ev = "string option \<times> int"

definition client_read :: "place \<Rightarrow> rd_ev \<Rightarrow> server \<Rightarrow> error + (int \<times> place \<times> server)" where
  "client_read p e s =
     (case fst e of
        None \<Rightarrow> Inr (0, p, s\<lparr>stderr := stderr s @ [Closing_errno (fd (node p s))]\<rparr>)
      | Some buf \<Rightarrow>
          if int (length buf) \<le> 0
          then Inr (0, p, s\<lparr>stderr := stderr s @ [Closing_errno (fd (node p s))]\<rparr>)
          else
            (let s1 = upd p (\<lambda>c. c\<lparr>last_ts := snd e\<rparr>) s in
             case while_len (state (node p s)) buf of
               Return0 st \<Rightarrow> Inr (0, p, upd p (\<lambda>c. c\<lparr>state := st\<rparr>) s1)
             | Do_get \<Rightarrow> Inr (1, (Writer_head, 0), do_get p s1)
             | Return1 st \<Rightarrow> Inr (1, p, upd p (\<lambda>c. c\<lparr>state := st\<rparr>) s1)))"

section \<open>Eviction and accept: \<^verbatim>\<open>client_free\<close>, \<^verbatim>\<open>client_accept\<close>\<close>

text \<open>
  \<^verbatim>\<open>client_free(cl, prev)\<close>, with the place of \<^verbatim>\<open>cl\<close> and the place \<^verbatim>\<open>prev\<close>. Its three
  assertions are kept: \<^verbatim>\<open>cl != NULL\<close>, \<^verbatim>\<open>*prev == cl\<close> and \<^verbatim>\<open>cl->fd != -1\<close>. Then the
  node is unlinked, its descriptor closed and cleared from both sets.
\<close>

definition client_free :: "place \<Rightarrow> place \<Rightarrow> server \<Rightarrow> error + server" where
  "client_free cl prev s =
     (if \<not> is_node cl s then Inl (Assertion ''cl != NULL && prev != NULL'')
      else if cl \<noteq> prev then Inl (Assertion ''*prev == cl'')
      else if fd (node cl s) = - 1 then Inl (Assertion ''cl->fd != -1'')
      else
        (let c = node cl s;
             s1 = set_list (fst prev) (unlink (snd prev) (list_of (fst prev) s)) s
         in Inr (s1\<lparr>closed := closed s1 @ [fd c],
                     rfds := rfds s1 - {fd c}, wfds := wfds s1 - {fd c}\<rparr>)))"

text \<open>
  \<^verbatim>\<open>client_accept\<close>, given what \<^verbatim>\<open>accept\<close> returned (the descriptor or a negative
  number, and whether \<^verbatim>\<open>errno\<close> is \<^verbatim>\<open>EAGAIN\<close>) and the value \<^verbatim>\<open>time(&new->last)\<close>
  stores. \<^verbatim>\<open>calloc\<close> zeroes the other fields of the new node.
\<close>

definition client_accept :: "int \<times> bool \<Rightarrow> int \<Rightarrow> server \<Rightarrow> error + server" where
  "client_accept a t s =
     (let newfd = fst a in
      if newfd < 0 then (if \<not> snd a then Inl (Die ''accept'') else Inr s)
      else
        (let new = \<lparr>fd = newfd, state = 0, last_ts = t, write_ofs = 0\<rparr>;
             s1 = s\<lparr>stderr := stderr s @ [New_client newfd],
                    reader_head := new # reader_head s,
                    rfds := insert (fd new) (rfds s)\<rparr>
         in Inr (if fd new > fd_max s1 then s1\<lparr>fd_max := newfd\<rparr> else s1)))"

section \<open>The response writer: \<^verbatim>\<open>client_write\<close>\<close>

text \<open>
  What the environment gives one call of \<^verbatim>\<open>client_write\<close>: the transport, a function
  from the count that \<^verbatim>\<open>write\<close> is asked for to what \<^verbatim>\<open>write\<close> returns (negative
  for an error, otherwise the number of bytes accepted), and the value that the
  following \<^verbatim>\<open>time(&cl->last)\<close> stores.

  \<^verbatim>\<open>write(cl->fd, buf + cl->write_ofs, buflen - cl->write_ofs)\<close> puts the first \<open>res\<close>
  bytes from offset \<^verbatim>\<open>write_ofs\<close> of the buffer on the wire. \<^verbatim>\<open>cl->write_ofs += res\<close>
  is an addition on a 32-bit unsigned. The assertions \<^verbatim>\<open>cl->fd != -1\<close> and
  \<^verbatim>\<open>cl->write_ofs <= buflen\<close> are kept.
\<close>

type_synonym wr_ev = "(int \<Rightarrow> int) \<times> int"

definition client_write :: "place \<Rightarrow> wr_ev \<Rightarrow> server \<Rightarrow> error + (int \<times> place \<times> server)" where
  "client_write p e s =
     (let cl = node p s in
      if state cl = 0 \<or> state cl = 1 then
        (let buf = (if state cl = 0 then hdr s else msg s);
             buflen = int (length buf) in
         if fd cl = - 1 then Inl (Assertion ''cl->fd != -1'')
         else
           (let res = fst e (buflen - int (write_ofs cl)) in
            if res < 0 then Inr (0, p, s\<lparr>stderr := stderr s @ [Closing_errno (fd cl)]\<rparr>)
            else
              (let s1 = s\<lparr>wire := wire s @ [(fd cl, take (nat res) (drop (write_ofs cl) buf))]\<rparr>;
                   ofs = (write_ofs cl + nat res) mod 2 ^ 32 in
               if \<not> int ofs \<le> buflen then Inl (Assertion ''cl->write_ofs <= buflen'')
               else
                 Inr (1, p,
                   upd p (\<lambda>c. (if int ofs = buflen then c\<lparr>state := state c + 1, write_ofs := 0\<rparr>
                                else c\<lparr>write_ofs := ofs\<rparr>)\<lparr>last_ts := snd e\<rparr>) s1))))
      else Inr (0, p, s\<lparr>stderr := stderr s @ [Closing_completed (fd cl)]\<rparr>))"

section \<open>The registry traversal: \<^verbatim>\<open>process_generic\<close>\<close>

text \<open>The \<^verbatim>\<open>fd_set *fds\<close> argument is \<^verbatim>\<open>&rfds\<close> or \<^verbatim>\<open>&wfds\<close>.\<close>

datatype fdsel = Rfds | Wfds

definition get_fds :: "fdsel \<Rightarrow> server \<Rightarrow> int set" where
  "get_fds fds s = (case fds of Rfds \<Rightarrow> rfds s | Wfds \<Rightarrow> wfds s)"

definition FD_SET :: "int \<Rightarrow> fdsel \<Rightarrow> server \<Rightarrow> server" where
  "FD_SET d fds s =
     (case fds of Rfds \<Rightarrow> s\<lparr>rfds := insert d (rfds s)\<rparr> | Wfds \<Rightarrow> s\<lparr>wfds := insert d (wfds s)\<rparr>)"

lemma list_of_stderr_update: "list_of h (s\<lparr>stderr := x\<rparr>) = list_of h s"
  by (cases h) (simp_all add: list_of_def)

lemma list_of_youngest_update: "list_of h (s\<lparr>youngest := x\<rparr>) = list_of h s"
  by (cases h) (simp_all add: list_of_def)

lemma list_of_FD_SET: "list_of h (FD_SET d fds s) = list_of h s"
  by (cases h; cases fds) (simp_all add: list_of_def FD_SET_def)

lemma length_unlink: "i < length xs \<Longrightarrow> length (unlink i xs) = length xs - 1"
  by (simp add: unlink_def)

lemma list_of_client_free:
  "client_free cl prev s = Inr s' \<Longrightarrow>
     cl = prev \<and> is_node prev s \<and>
     list_of h s' = (if h = fst prev then unlink (snd prev) (list_of h s) else list_of h s)"
  by (cases h; cases "fst prev")
    (auto simp: client_free_def Let_def list_of_def set_list_def split: if_splits)

text \<open>\<^verbatim>\<open>if (curr->last < youngest) youngest = curr->last;\<close>\<close>

definition track_youngest :: "client \<Rightarrow> server \<Rightarrow> server" where
  "track_youngest c s = (if last_ts c < youngest s then s\<lparr>youngest := last_ts c\<rparr> else s)"

lemma list_of_track_youngest: "list_of h (track_youngest c s) = list_of h s"
  by (simp add: track_youngest_def list_of_youngest_update)

type_synonym 'e handler = "place \<Rightarrow> 'e \<Rightarrow> server \<Rightarrow> error + (int \<times> place \<times> server)"

text \<open>
  The loop \<^verbatim>\<open>for (prev = head; (curr = *prev); )\<close> of \<^verbatim>\<open>process_generic\<close>, from the
  place \<^verbatim>\<open>prev\<close> on, with \<^verbatim>\<open>timeout\<close> already computed. Each call of the handler
  \<^verbatim>\<open>foreach\<close> takes the next entry of the environment's script \<open>evs\<close>; a call with
  the script used up is \<open>Starved\<close>. After the handler, \<^verbatim>\<open>curr\<close> is where the handler
  says the node is: \<^verbatim>\<open>prev = &curr->next\<close> is the place after it, in the list the
  node is in then. The two handlers of the program always return the place of a node;
  for a handler that does not, where the source would follow a stale pointer, the
  model stops with an error.
\<close>

function process_loop ::
  "fdsel \<Rightarrow> 'e handler \<Rightarrow> int \<Rightarrow> place \<Rightarrow> 'e list \<Rightarrow> server \<Rightarrow> error + (server \<times> 'e list)" where
  "process_loop fds foreach timeout prev evs s =
     (if \<not> is_node prev s then Inr (s, evs)
      else
        (let curr = node prev s;
             s1 = track_youngest curr s
         in
         if last_ts curr \<le> timeout then
           (case client_free prev prev (s1\<lparr>stderr := stderr s1 @ [Closing_timeout (fd curr)]\<rparr>) of
              Inl x \<Rightarrow> Inl x
            | Inr s2 \<Rightarrow> process_loop fds foreach timeout prev evs s2)
         else if fd curr \<in> get_fds fds s1 then
           (case evs of
              [] \<Rightarrow> Inl Starved
            | e # evs' \<Rightarrow>
                (case foreach prev e s1 of
                   Inl x \<Rightarrow> Inl x
                 | Inr (r, cl, s2) \<Rightarrow>
                     if r = 0 then
                       (case client_free cl prev
                               (s2\<lparr>stderr := stderr s2 @ [Closing_disconnect (fd (node cl s2))]\<rparr>) of
                          Inl x \<Rightarrow> Inl x
                        | Inr s3 \<Rightarrow> process_loop fds foreach timeout prev evs' s3)
                     else if \<not> is_node cl s2 then Inl (Assertion ''curr'')
                     else
                       process_loop fds foreach timeout (fst cl, Suc (snd cl)) evs'
                         (FD_SET (fd (node cl s2)) fds s2)))
         else
           process_loop fds foreach timeout (fst prev, Suc (snd prev)) evs
             (FD_SET (fd curr) fds s1)))"
  by pat_completeness auto

termination process_loop
proof (relation "measures [\<lambda>(fds, foreach, timeout, prev, evs, s). length evs,
                           \<lambda>(fds, foreach, timeout, prev, evs, s).
                              length (list_of (fst prev) s) - snd prev]", goal_cases)
  case 1
  show ?case by simp
next
  case (2 fds foreach timeout prev evs s curr s1 s2)
  then show ?case
    by (auto simp: is_node_def list_of_stderr_update list_of_track_youngest length_unlink
        dest!: list_of_client_free [where h = "fst prev"])
next
  case 3
  then show ?case by simp
next
  case 4
  then show ?case by simp
next
  case 5
  then show ?case
    by (auto simp: is_node_def list_of_FD_SET list_of_track_youngest)
qed

declare process_loop.simps [simp del]

text \<open>
  \<^verbatim>\<open>process_generic(head, fds, foreach)\<close>: \<^verbatim>\<open>time(&timeout); timeout -= HTTP_TIMEOUT;\<close>
  then the loop from \<^verbatim>\<open>head\<close>. \<open>now\<close> is what \<^verbatim>\<open>time\<close> returned.
\<close>

definition process_generic ::
  "head \<Rightarrow> fdsel \<Rightarrow> 'e handler \<Rightarrow> int \<Rightarrow> 'e list \<Rightarrow> server \<Rightarrow> error + (server \<times> 'e list)" where
  "process_generic h fds foreach now evs s =
     process_loop fds foreach (now - HTTP_TIMEOUT) (h, 0) evs s"

definition process_readers :: "int \<Rightarrow> rd_ev list \<Rightarrow> server \<Rightarrow> error + (server \<times> rd_ev list)" where
  "process_readers now evs s = process_generic Reader_head Rfds client_read now evs s"

definition process_writers :: "int \<Rightarrow> wr_ev list \<Rightarrow> server \<Rightarrow> error + (server \<times> wr_ev list)" where
  "process_writers now evs s = process_generic Writer_head Wfds client_write now evs s"

section \<open>The event loop of \<^verbatim>\<open>main\<close>\<close>

text \<open>
  The timeout handed to \<^verbatim>\<open>select\<close> at the top of the loop: \<open>None\<close> is \<^verbatim>\<open>tv = NULL\<close>
  (wait without limit), \<open>Some n\<close> is \<^verbatim>\<open>tv->tv_sec = n\<close>.
\<close>

definition select_tv :: "int \<Rightarrow> int \<Rightarrow> int option" where
  "select_tv yng now =
     (if yng \<noteq> INT_MAX then
        (let expire = yng + HTTP_TIMEOUT in Some (if expire \<le> now then 0 else expire - now))
      else None)"

text \<open>
  \<^verbatim>\<open>e = select(fd_max + 1, &rfds, &wfds, NULL, tv); if (e < 0) perror_and_die("");\<close>
  The environment says which descriptors are readable and which are writable when
  \<^verbatim>\<open>select\<close> returns, or \<open>None\<close> when it fails. \<^verbatim>\<open>select\<close> looks only at the
  descriptors below its first argument: of those it leaves in each set the ones that
  are ready, and the others stay as they are. The timeout \<^verbatim>\<open>tv\<close> bounds the wait and
  has no part in what is left in the sets.
\<close>

definition select_out :: "int \<Rightarrow> int set \<Rightarrow> int set \<Rightarrow> int set" where
  "select_out nfds ready fds = {d \<in> fds. nfds \<le> d \<or> d \<in> ready}"

definition main_select :: "(int set \<times> int set) option \<Rightarrow> server \<Rightarrow> error + server" where
  "main_select ready s =
     (case ready of
        None \<Rightarrow> Inl (Die '''')
      | Some (r, w) \<Rightarrow>
          Inr (s\<lparr>rfds := select_out (fd_max s + 1) r (rfds s),
                 wfds := select_out (fd_max s + 1) w (wfds s)\<rparr>))"

text \<open>
  The environment of the listening socket: the descriptors that the connections
  waiting in its queue will get, first come first. \<^verbatim>\<open>accept\<close> on the non-blocking
  socket takes the first, or fails with \<^verbatim>\<open>EAGAIN\<close> when the queue is empty.
\<close>

definition accept_nb :: "int list \<Rightarrow> (int \<times> bool) \<times> int list" where
  "accept_nb backlog =
     (case backlog of [] \<Rightarrow> ((- 1, True), []) | newfd # rest \<Rightarrow> ((newfd, False), rest))"

text \<open>
  After \<^verbatim>\<open>select\<close>:
  \<^verbatim>\<open>if (FD_ISSET(listen_fd, &rfds)) { client_accept(listen_fd); e--; } FD_SET(listen_fd, &rfds);\<close>
\<close>

definition main_accept :: "int \<Rightarrow> int list \<Rightarrow> int \<Rightarrow> server \<Rightarrow> error + (server \<times> int list)" where
  "main_accept listen_fd backlog t s =
     (if listen_fd \<in> rfds s then
        (case client_accept (fst (accept_nb backlog)) t s of
           Inl x \<Rightarrow> Inl x
         | Inr s1 \<Rightarrow> Inr (s1\<lparr>rfds := insert listen_fd (rfds s1)\<rparr>, snd (accept_nb backlog)))
      else Inr (s\<lparr>rfds := insert listen_fd (rfds s)\<rparr>, backlog))"

text \<open>
  The rest of the loop body:
  \<^verbatim>\<open>youngest = INT_MAX; process_readers(); process_writers();\<close>
  with what \<^verbatim>\<open>time\<close> returns in each traversal and the script of each.
\<close>

definition main_process ::
  "int \<Rightarrow> rd_ev list \<Rightarrow> int \<Rightarrow> wr_ev list \<Rightarrow> server \<Rightarrow> error + server" where
  "main_process now_r revs now_w wevs s =
     (case process_readers now_r revs (s\<lparr>youngest := INT_MAX\<rparr>) of
        Inl x \<Rightarrow> Inl x
      | Inr (s1, _) \<Rightarrow>
          (case process_writers now_w wevs s1 of
             Inl x \<Rightarrow> Inl x
           | Inr (s2, _) \<Rightarrow> Inr s2))"

text \<open>
  One iteration of \<^verbatim>\<open>while (1)\<close> from \<^verbatim>\<open>select\<close> on: \<^verbatim>\<open>select\<close>, the accept step and
  the two traversals.
\<close>

definition main_iteration ::
  "int \<Rightarrow> (int set \<times> int set) option \<Rightarrow> int list \<Rightarrow> int \<Rightarrow> int \<Rightarrow> rd_ev list \<Rightarrow> int \<Rightarrow>
   wr_ev list \<Rightarrow> server \<Rightarrow> error + (server \<times> int list)" where
  "main_iteration listen_fd ready backlog t now_r revs now_w wevs s =
     (case main_select ready s of
        Inl x \<Rightarrow> Inl x
      | Inr s1 \<Rightarrow>
          (case main_accept listen_fd backlog t s1 of
             Inl x \<Rightarrow> Inl x
           | Inr (s2, backlog') \<Rightarrow>
               (case main_process now_r revs now_w wevs s2 of
                  Inl x \<Rightarrow> Inl x
                | Inr s3 \<Rightarrow> Inr (s3, backlog'))))"

section \<open>One connection over several iterations\<close>

text \<open>
  The calls of \<^verbatim>\<open>client_read\<close> that the traversals of the reader list make for one of
  its nodes, one per entry of the script, as long as the handler returns 1 and the
  node stays where it is: after a 0 the loop frees the node, and after \<^verbatim>\<open>do_get\<close> it
  is a writer.
\<close>

fun read_calls :: "place \<Rightarrow> rd_ev list \<Rightarrow> server \<Rightarrow> error + (int \<times> place \<times> server)" where
  "read_calls p [] s = Inr (1, p, s)"
| "read_calls p (e # es) s =
     (case client_read p e s of
        Inl x \<Rightarrow> Inl x
      | Inr (r, p', s') \<Rightarrow> if r = 0 \<or> p' \<noteq> p then Inr (r, p', s') else read_calls p es s')"

text \<open>
  The calls of \<^verbatim>\<open>client_write\<close> that the traversals of the writer list make for one of
  its nodes, up to the first that returns 0 (after which the loop frees the node).
\<close>

fun write_calls :: "place \<Rightarrow> wr_ev list \<Rightarrow> server \<Rightarrow> error + (int \<times> server)" where
  "write_calls p [] s = Inr (1, s)"
| "write_calls p (e # es) s =
     (case client_write p e s of
        Inl x \<Rightarrow> Inl x
      | Inr (r, p', s') \<Rightarrow> if r = 0 then Inr (0, s') else write_calls p es s')"

text \<open>The bytes written on descriptor \<open>d\<close>, in order.\<close>

definition sent :: "int \<Rightarrow> server \<Rightarrow> string" where
  "sent d s = concat (map snd (filter (\<lambda>w. fst w = d) (wire s)))"

section \<open>Scripts of the environment\<close>

text \<open>A read that delivers bytes (neither an error nor the end of the stream), and its bytes.\<close>

definition delivers :: "rd_ev \<Rightarrow> bool" where
  "delivers e = (case fst e of None \<Rightarrow> False | Some buf \<Rightarrow> buf \<noteq> [])"

definition bytes :: "rd_ev \<Rightarrow> string" where
  "bytes e = (case fst e of None \<Rightarrow> [] | Some buf \<Rightarrow> buf)"

text \<open>
  A transport that accepts, of the \<open>n\<close> bytes it is asked for, at least one (none when
  \<open>n\<close> is 0) and at most \<open>n\<close>.
\<close>

definition accepts_some :: "wr_ev \<Rightarrow> bool" where
  "accepts_some e = (\<forall>n\<ge>0. min 1 n \<le> fst e n \<and> fst e n \<le> n)"

text \<open>
  A transport that never accepts more than it is asked for. It may fail (a negative
  result) or accept nothing.
\<close>

definition at_most_asked :: "wr_ev \<Rightarrow> bool" where
  "at_most_asked e = (\<forall>n\<ge>0. fst e n \<le> n)"

text \<open>
  For a node of the writer list: the bytes of the response not yet accepted by the
  transport, a bound on the calls of \<^verbatim>\<open>client_write\<close> still needed, and the
  condition under which the node's offset is inside its buffer.
\<close>

definition to_send :: "client \<Rightarrow> server \<Rightarrow> string" where
  "to_send cl s =
     (if state cl = 0 then drop (write_ofs cl) (hdr s) @ msg s
      else if state cl = 1 then drop (write_ofs cl) (msg s) else [])"

definition calls_left :: "client \<Rightarrow> server \<Rightarrow> nat" where
  "calls_left cl s =
     (if state cl = 0 then length (hdr s) - write_ofs cl + length (msg s) + 2
      else if state cl = 1 then length (msg s) - write_ofs cl + 1 else 0)"

definition writing :: "place \<Rightarrow> server \<Rightarrow> bool" where
  "writing p s =
     (is_node p s \<and> fd (node p s) \<noteq> - 1 \<and>
      length (hdr s) < 2 ^ 32 \<and> length (msg s) < 2 ^ 32 \<and>
      (state (node p s) = 0 \<longrightarrow> write_ofs (node p s) \<le> length (hdr s)) \<and>
      (state (node p s) = 1 \<longrightarrow> write_ofs (node p s) \<le> length (msg s)))"

section \<open>A small server, for concrete runs\<close>

text \<open>
  Listening on descriptor 3, with one connection accepted on descriptor 4 at time 100
  and nothing read from it yet.
\<close>

definition one_reader :: server where
  "one_reader =
     \<lparr>reader_head = [\<lparr>fd = 4, state = 0, last_ts = 100, write_ofs = 0\<rparr>],
      writer_head = [], fd_max = 4, youngest = INT_MAX, rfds = {3, 4}, wfds = {},
      hdr = ''200'' @ [CHR 0x0D, CHR 0x0A, CHR 0x0D, CHR 0x0A], msg = ''sopa'',
      closed = [], wire = [], stderr = [New_client 4]\<rparr>"

text \<open>The same server with the connection's recognizer in state \<open>st\<close>.\<close>

definition reader_in :: "int \<Rightarrow> server" where
  "reader_in st =
     one_reader\<lparr>reader_head := [\<lparr>fd = 4, state = st, last_ts = 100, write_ofs = 0\<rparr>]\<rparr>"


text \<open>The server with no connection yet.\<close>

definition listening :: server where
  "listening = one_reader\<lparr>reader_head := [], fd_max := 3, rfds := {3}, stderr := []\<rparr>"

text \<open>
  The server with two more connections in the writer list: descriptor 5 in the body
  phase at offset 2 and writable, descriptor 6 last active at 98.
\<close>

definition two_writers :: server where
  "two_writers =
     one_reader\<lparr>writer_head := [\<lparr>fd = 5, state = 1, last_ts = 101, write_ofs = 2\<rparr>,
                                 \<lparr>fd = 6, state = 0, last_ts = 98, write_ofs = 0\<rparr>],
                wfds := {5}\<rparr>"

text \<open>
  The same server with two readers: descriptor 4 at the start of a line (state 5), and
  descriptor 7 last active at 90. Descriptor 5, a writer, is readable as well.
\<close>

definition two_readers :: server where
  "two_readers =
     two_writers\<lparr>reader_head := [\<lparr>fd = 4, state = 5, last_ts = 100, write_ofs = 0\<rparr>,
                                 \<lparr>fd = 7, state = 0, last_ts = 90, write_ofs = 0\<rparr>],
                 rfds := {3, 4, 5, 7}\<rparr>"

text \<open>
  Listening on descriptor 3, with two connections accepted at time 100, first on
  descriptor 4, then on descriptor 5, and nothing read yet.
\<close>

definition two_accepted :: server where
  "two_accepted =
     one_reader\<lparr>reader_head := [\<lparr>fd = 5, state = 0, last_ts = 100, write_ofs = 0\<rparr>,
                                 \<lparr>fd = 4, state = 0, last_ts = 100, write_ofs = 0\<rparr>],
                fd_max := 5, rfds := {3, 4, 5}, stderr := [New_client 4, New_client 5]\<rparr>"

text \<open>
  The same server one iteration later: descriptor 4 has sent a whole request but for its
  last byte, is a writer, and the first byte of the header has been written to it. Its
  descriptor is in \<^verbatim>\<open>wfds\<close> and in \<^verbatim>\<open>rfds\<close>.
\<close>

definition first_served :: server where
  "first_served =
     two_accepted\<lparr>reader_head := [\<lparr>fd = 5, state = 0, last_ts = 100, write_ofs = 0\<rparr>],
                  writer_head := [\<lparr>fd = 4, state = 0, last_ts = 101, write_ofs = 1\<rparr>],
                  youngest := 100, rfds := {3, 4, 5}, wfds := {4}, wire := [(4, ''2'')]\<rparr>"

text \<open>The same server after the next iteration: descriptor 4 is closed.\<close>

definition first_dropped :: server where
  "first_dropped =
     first_served\<lparr>reader_head := [],
                  writer_head := [\<lparr>fd = 5, state = 1, last_ts = 102, write_ofs = 0\<rparr>],
                  rfds := {3, 5}, wfds := {5}, closed := [4],
                  wire := [(4, ''2''), (5, ''200'' @ [CHR 0x0D, CHR 0x0A, CHR 0x0D, CHR 0x0A])],
                  stderr := [New_client 4, New_client 5, Closing_disconnect 4]\<rparr>"

text \<open>
  The server with the same two connections, descriptor 4 having sent \<^verbatim>\<open>GET\<close> and a
  space: its recognizer is in state 4.
\<close>

definition method_matched :: server where
  "method_matched =
     two_accepted\<lparr>reader_head := [\<lparr>fd = 5, state = 0, last_ts = 100, write_ofs = 0\<rparr>,
                                   \<lparr>fd = 4, state = 4, last_ts = 100, write_ofs = 0\<rparr>]\<rparr>"

text \<open>
  One iteration later: descriptor 4 has sent the rest of its request line, a header line
  and a carriage return, is a writer, and the whole header has been written to it.
\<close>

definition header_sent :: server where
  "header_sent =
     method_matched\<lparr>reader_head := [\<lparr>fd = 5, state = 0, last_ts = 100, write_ofs = 0\<rparr>],
                    writer_head := [\<lparr>fd = 4, state = 1, last_ts = 101, write_ofs = 0\<rparr>],
                    youngest := 100, rfds := {3, 4, 5}, wfds := {4},
                    wire := [(4, ''200'' @ [CHR 0x0D, CHR 0x0A, CHR 0x0D, CHR 0x0A])]\<rparr>"

text \<open>After the next iteration: descriptor 4 is closed.\<close>

definition header_only :: server where
  "header_only =
     header_sent\<lparr>reader_head := [],
                 writer_head := [\<lparr>fd = 5, state = 1, last_ts = 102, write_ofs = 0\<rparr>],
                 rfds := {3, 5}, wfds := {5}, closed := [4],
                 wire := [(4, ''200'' @ [CHR 0x0D, CHR 0x0A, CHR 0x0D, CHR 0x0A]),
                          (5, ''200'' @ [CHR 0x0D, CHR 0x0A, CHR 0x0D, CHR 0x0A])],
                 stderr := [New_client 4, New_client 5, Closing_disconnect 4]\<rparr>"

section \<open>Notions for the traversal\<close>

text \<open>The descriptors of the lines \<^verbatim>\<open>closing fd %d, timeout\<close>, in order.\<close>

definition timed_out :: "server \<Rightarrow> int list" where
  "timed_out s = concat (map (\<lambda>l. case l of Closing_timeout d \<Rightarrow> [d] | _ \<Rightarrow> []) (stderr s))"

text \<open>
  The nodes of a list for which a traversal calls the handler, when no node changes
  place during it: those that are not timed out and whose descriptor is in the set.
  The descriptors of the nodes being distinct, the descriptor of a node is in the set
  when the loop reaches the node exactly if it was there when the traversal started.
  The calls take the entries of the script in order, so the \<open>k\<close>-th of these nodes is
  called with the \<open>k\<close>-th entry: the calls of the traversal are
  \<open>zip (handled timeout ready cs) evs\<close>.
\<close>

definition handled :: "int \<Rightarrow> int set \<Rightarrow> client list \<Rightarrow> client list" where
  "handled timeout ready cs = filter (\<lambda>c. timeout < last_ts c \<and> fd c \<in> ready) cs"

text \<open>
  A step from \<open>s\<close> to \<open>s'\<close> that changes, in the lists, at most the node at \<open>p\<close>, whose
  descriptor it keeps, and leaves \<^verbatim>\<open>youngest\<close>, the timeouts logged, the descriptors
  closed, the two descriptor sets and the two buffers as they are.
\<close>

definition local_to :: "place \<Rightarrow> server \<Rightarrow> server \<Rightarrow> bool" where
  "local_to p s s' =
     ((\<exists>cl'. fd cl' = fd (node p s) \<and>
         (\<forall>h. list_of h s' =
            (if h = fst p then (list_of h s)[snd p := cl'] else list_of h s))) \<and>
      youngest s' = youngest s \<and> timed_out s' = timed_out s \<and> closed s' = closed s \<and>
      rfds s' = rfds s \<and> wfds s' = wfds s \<and> hdr s' = hdr s \<and> msg s' = msg s)"

text \<open>
  A handler call that, for the node \<open>cl\<close> and the script entry \<open>e\<close>, with the buffers
  \<open>H\<close> and \<open>M\<close>, returns and leaves the node where it is.
\<close>

definition stays :: "'e handler \<Rightarrow> string \<Rightarrow> string \<Rightarrow> client \<Rightarrow> 'e \<Rightarrow> bool" where
  "stays foreach H M cl e =
     (\<forall>p s. is_node p s \<and> node p s = cl \<and> hdr s = H \<and> msg s = M \<longrightarrow>
        (\<exists>r s'. foreach p e s = Inr (r, p, s') \<and> local_to p s s'))"

text \<open>
  What a traversal of the list \<open>h\<close> from index \<open>i\<close> on has done when no node changed
  place: \<open>s'\<close> is the state after it, \<open>ds\<close> the descriptors it closed, in order.
\<close>

definition swept :: "head \<Rightarrow> nat \<Rightarrow> int \<Rightarrow> fdsel \<Rightarrow> server \<Rightarrow> server \<Rightarrow> int list \<Rightarrow> bool" where
  "swept h i timeout fds s s' ds =
     (youngest s' = Min (insert (youngest s) (last_ts ` set (drop i (list_of h s)))) \<and>
      timed_out s' =
        timed_out s @ map fd (filter (\<lambda>c. last_ts c \<le> timeout) (drop i (list_of h s))) \<and>
      (\<forall>h'. h' \<noteq> h \<longrightarrow> list_of h' s' = list_of h' s) \<and>
      take i (list_of h s') = take i (list_of h s) \<and>
      closed s' = closed s @ ds \<and>
      set ds \<subseteq> fd ` set (drop i (list_of h s)) \<and>
      fd ` set (drop i (list_of h s')) = fd ` set (drop i (list_of h s)) - set ds \<and>
      (\<forall>c\<in>set (drop i (list_of h s)). last_ts c \<le> timeout \<longrightarrow> fd c \<in> set ds) \<and>
      (\<forall>c\<in>set (drop i (list_of h s)).
         timeout < last_ts c \<and> fd c \<notin> get_fds fds s \<longrightarrow> c \<in> set (drop i (list_of h s'))) \<and>
      set ds \<inter> rfds s' = {} \<and> set ds \<inter> wfds s' = {} \<and>
      rfds s' \<subseteq> rfds s \<union> fd ` set (drop i (list_of h s)) \<and>
      wfds s' \<subseteq> wfds s \<union> fd ` set (drop i (list_of h s)) \<and>
      hdr s' = hdr s \<and> msg s' = msg s)"

section \<open>Basic facts about places\<close>

lemma list_of_set_list:
  "list_of h (set_list h' xs s) = (if h = h' then xs else list_of h s)"
  by (cases h; cases h') (simp_all add: list_of_def set_list_def)

lemma set_list_fields:
  "rfds (set_list h xs s) = rfds s" "wfds (set_list h xs s) = wfds s"
  "wire (set_list h xs s) = wire s" "closed (set_list h xs s) = closed s"
  "stderr (set_list h xs s) = stderr s" "youngest (set_list h xs s) = youngest s"
  "hdr (set_list h xs s) = hdr s" "msg (set_list h xs s) = msg s"
  "fd_max (set_list h xs s) = fd_max s"
  by (cases h; simp add: set_list_def)+

lemma set_list_set_list: "set_list h xs (set_list h ys s) = set_list h xs s"
  by (cases h) (simp_all add: set_list_def)

lemma list_of_upd:
  "list_of h (upd p f s) = (if h = fst p then (list_of h s)[snd p := f (node p s)] else list_of h s)"
  by (simp add: upd_def list_of_set_list)

lemma upd_fields:
  "rfds (upd p f s) = rfds s" "wfds (upd p f s) = wfds s"
  "wire (upd p f s) = wire s" "closed (upd p f s) = closed s"
  "stderr (upd p f s) = stderr s" "youngest (upd p f s) = youngest s"
  "hdr (upd p f s) = hdr s" "msg (upd p f s) = msg s" "fd_max (upd p f s) = fd_max s"
  by (simp_all add: upd_def set_list_fields)

lemma is_node_upd: "is_node q (upd p f s) = is_node q s"
  by (simp add: is_node_def list_of_upd)

lemma node_upd_same: "is_node p s \<Longrightarrow> node p (upd p f s) = f (node p s)"
  by (simp add: node_def is_node_def list_of_upd)

lemma upd_upd: "is_node p s \<Longrightarrow> upd p f (upd p g s) = upd p (f \<circ> g) s"
  by (simp add: upd_def node_def is_node_def list_of_set_list set_list_set_list)

lemma client_read_bytes:
  "buf \<noteq> [] \<Longrightarrow>
   client_read p (Some buf, t) s =
     (case while_len (state (node p s)) buf of
        Return0 st \<Rightarrow> Inr (0, p, upd p (\<lambda>c. c\<lparr>state := st\<rparr>) (upd p (\<lambda>c. c\<lparr>last_ts := t\<rparr>) s))
      | Do_get \<Rightarrow> Inr (1, (Writer_head, 0), do_get p (upd p (\<lambda>c. c\<lparr>last_ts := t\<rparr>) s))
      | Return1 st \<Rightarrow> Inr (1, p, upd p (\<lambda>c. c\<lparr>state := st\<rparr>) (upd p (\<lambda>c. c\<lparr>last_ts := t\<rparr>) s)))"
  by (simp add: client_read_def Let_def)

lemma unlink_update: "unlink i (xs[i := v]) = unlink i xs"
  by (simp add: unlink_def)

lemma do_get_alt:
  "do_get p s =
     (let cl = node p s;
          s1 = set_list (fst p) (unlink (snd p) (list_of (fst p) s)) s
      in s1\<lparr>writer_head := cl\<lparr>write_ofs := 0, state := 0\<rparr> # writer_head s1,
             rfds := rfds s - {fd cl}, wfds := insert (fd cl) (wfds s)\<rparr>)"
  by (cases "fst p") (simp_all add: do_get_def Let_def upd_def node_def list_of_def set_list_def)

lemma set_list_upd: "set_list (fst p) xs (upd p f s) = set_list (fst p) xs s"
  by (simp add: upd_def set_list_set_list)

lemma do_get_upd:
  "is_node p s \<Longrightarrow> g (node p s) = (h (node p s))\<lparr>state := k\<rparr> \<Longrightarrow>
   do_get p (upd p g s) = do_get p (upd p h s)"
  by (simp add: do_get_alt Let_def node_upd_same list_of_upd unlink_update set_list_upd
      upd_fields)

lemma while_len_456:
  "st \<in> {4, 5, 6} \<Longrightarrow>
   while_len st buf = Do_get \<or> (\<exists>st'\<in>{4, 5, 6}. while_len st buf = Return1 st')"
  by (induction buf arbitrary: st) auto

section \<open>The recognizer's states\<close>

lemma while_len_append:
  "while_len st (xs @ ys) =
     (case while_len st xs of Return1 st' \<Rightarrow> while_len st' ys | r \<Rightarrow> r)"
  by (induction st xs rule: while_len.induct) simp_all

lemma while_len_skip_line:
  "CHR 0x0A \<notin> set line \<Longrightarrow> while_len 6 line = Return1 6"
  by (induction line) auto

text \<open>
  C9. In state 5 (a line starts here) a first byte that is a carriage return or a line
  feed ends the loop with \<^verbatim>\<open>do_get\<close>: the request is complete. Any other first byte
  starts a header line: the loop is in state 6 while the line has no line feed, and
  after the line's line feed it is where it was, in state 5, before the rest.
\<close>

theorem blank_line_or_header_line:
  "(ch = CHR 0x0D \<or> ch = CHR 0x0A \<longrightarrow> while_len 5 (ch # rest) = Do_get) \<and>
   (ch \<noteq> CHR 0x0D \<and> ch \<noteq> CHR 0x0A \<and> CHR 0x0A \<notin> set line \<longrightarrow>
      while_len 5 (ch # line) = Return1 6 \<and>
      while_len 5 (ch # line @ CHR 0x0A # rest) = while_len 5 rest)"
  by (simp add: while_len_append while_len_skip_line)

theorem blank_line_or_header_line_witness:
  "while_len 5 (CHR 0x0D # [CHR 0x0A]) = Do_get \<and>
   while_len 5 (CHR 0x0A # ''GET'') = Do_get \<and>
   while_len 5 (CHR ''H'' # ''ost: a'') = Return1 6 \<and>
   while_len 5 (CHR ''H'' # ''ost: a'' @ CHR 0x0A # [CHR 0x0D, CHR 0x0A]) =
     while_len 5 [CHR 0x0D, CHR 0x0A]"
  using blank_line_or_header_line [of "CHR 0x0D" "[CHR 0x0A]" "[]"]
    blank_line_or_header_line [of "CHR 0x0A" "''GET''" "[]"]
    blank_line_or_header_line [of "CHR ''H''" "[CHR 0x0D, CHR 0x0A]" "''ost: a''"]
  by simp

lemma bytes_Some: "bytes (Some b, t) = b"
  by (simp add: bytes_def)

lemma deliversE:
  assumes "delivers e"
  obtains b t where "e = (Some b, t)" "b \<noteq> []"
  using assms by (cases e) (auto simp: delivers_def split: option.splits)

lemma concat_bytes_nonempty:
  "es \<noteq> [] \<Longrightarrow> \<forall>e\<in>set es. delivers e \<Longrightarrow> concat (map bytes es) \<noteq> []"
  by (cases es) (auto elim!: deliversE simp: bytes_Some)

lemma client_read_01:
  "buf \<noteq> [] \<Longrightarrow> client_read p (Some buf, t) s = Inr (r, p', s') \<Longrightarrow>
     (r = 0 \<and> p' = p) \<or> r = 1"
  by (auto simp: client_read_bytes split: scan.splits)

lemma read_calls_single:
  "buf \<noteq> [] \<Longrightarrow> read_calls p [(Some buf, t)] s = client_read p (Some buf, t) s"
  by (auto simp: client_read_bytes split: scan.splits)

lemma client_read_resume:
  assumes "is_node p s" "b \<noteq> []" "r \<noteq> []" "while_len (state (node p s)) b = Return1 st"
  shows "client_read p (Some r, t)
           (upd p (\<lambda>c. c\<lparr>state := st\<rparr>) (upd p (\<lambda>c. c\<lparr>last_ts := t0\<rparr>) s)) =
         client_read p (Some (b @ r), t) s"
proof -
  let ?s1 = "upd p (\<lambda>c. c\<lparr>state := st\<rparr>) (upd p (\<lambda>c. c\<lparr>last_ts := t0\<rparr>) s)"
  have n1: "is_node p ?s1" using assms(1) by (simp add: is_node_upd)
  have st1: "state (node p ?s1) = st"
    using assms(1) by (simp add: node_upd_same is_node_upd)
  have w: "while_len (state (node p s)) (b @ r) = while_len st r"
    by (simp add: while_len_append assms(4))
  have u: "\<And>k. upd p (\<lambda>c. c\<lparr>state := k\<rparr>) (upd p (\<lambda>c. c\<lparr>last_ts := t\<rparr>) ?s1) =
              upd p (\<lambda>c. c\<lparr>state := k\<rparr>) (upd p (\<lambda>c. c\<lparr>last_ts := t\<rparr>) s)"
    using assms(1) by (simp add: upd_upd is_node_upd comp_def)
  have a: "upd p f3 (upd p f2 (upd p f1 s)) = upd p (f3 \<circ> (f2 \<circ> f1)) s" for f1 f2 f3
    using assms(1) by (simp add: upd_upd is_node_upd comp_def)
  have "do_get p (upd p ((\<lambda>c. c\<lparr>last_ts := t\<rparr>) \<circ> ((\<lambda>c. c\<lparr>state := st\<rparr>) \<circ> (\<lambda>c. c\<lparr>last_ts := t0\<rparr>))) s) =
        do_get p (upd p (\<lambda>c. c\<lparr>last_ts := t\<rparr>) s)"
    by (rule do_get_upd [OF assms(1), where k = st]) simp
  then have g: "do_get p (upd p (\<lambda>c. c\<lparr>last_ts := t\<rparr>) ?s1) =
                do_get p (upd p (\<lambda>c. c\<lparr>last_ts := t\<rparr>) s)"
    by (simp only: a)
  show ?thesis
    using assms(2,3) by (cases "while_len st r") (simp_all add: client_read_bytes st1 w u g)
qed

lemma read_calls_concat:
  assumes "fst p = Reader_head" "is_node p s" "evs \<noteq> []" "\<forall>e\<in>set evs. delivers e"
  shows "\<exists>t\<in>snd ` set evs.
           read_calls p evs s = client_read p (Some (concat (map bytes evs)), t) s"
  using assms(3,2,4)
proof (induction evs arbitrary: s rule: list_nonempty_induct)
  case (single e)
  then have "delivers e" by simp
  then obtain b t0 where e: "e = (Some b, t0)" "b \<noteq> []"
    by (rule deliversE)
  then show ?case by (simp add: read_calls_single bytes_Some del: read_calls.simps)
next
  case (cons e es)
  then have "delivers e" by simp
  then obtain b t0 where e: "e = (Some b, t0)" "b \<noteq> []"
    by (rule deliversE)
  have r: "concat (map bytes es) \<noteq> []"
    by (rule concat_bytes_nonempty [OF cons.hyps]) (use cons.prems(2) in simp)
  show ?case
  proof (cases "while_len (state (node p s)) b")
    case (Return0 st)
    then have "read_calls p (e # es) s = client_read p (Some (b @ concat (map bytes es)), t0) s"
      using e by (simp add: client_read_bytes while_len_append)
    then show ?thesis using e by (auto simp: bytes_Some)
  next
    case Do_get
    then have "read_calls p (e # es) s = client_read p (Some (b @ concat (map bytes es)), t0) s"
      using e assms(1) by (auto simp: client_read_bytes while_len_append)
    then show ?thesis using e by (auto simp: bytes_Some)
  next
    case (Return1 st)
    let ?s1 = "upd p (\<lambda>c. c\<lparr>state := st\<rparr>) (upd p (\<lambda>c. c\<lparr>last_ts := t0\<rparr>) s)"
    have step: "read_calls p (e # es) s = read_calls p es ?s1"
      using e Return1 by (simp add: client_read_bytes)
    have "is_node p ?s1" using cons.prems(1) by (simp add: is_node_upd)
    from cons.IH [OF this] cons.prems(2)
    obtain t where t: "t \<in> snd ` set es"
      "read_calls p es ?s1 = client_read p (Some (concat (map bytes es)), t) ?s1"
      by auto
    have "client_read p (Some (concat (map bytes es)), t) ?s1 =
          client_read p (Some (b @ concat (map bytes es)), t) s"
      by (rule client_read_resume [OF cons.prems(1) e(2) r Return1])
    with step t show ?thesis using e by (auto simp: bytes_Some)
  qed
qed

text \<open>
  The handler alone, for a node that is in the reader list. With state 4, 5 or 6 (the
  method and the space are matched) the node is never rejected: whatever bytes the reads
  deliver, in however many reads and however long the lines, every call of
  \<^verbatim>\<open>client_read\<close> returns 1, and the node either has moved to the writer list or is
  still a reader in state 4, 5 or 6. The calls that the loop makes for the node once it is
  in the writer list are the subject of the last section.
\<close>

lemma no_rejection_after_method_and_space:
  assumes "fst p = Reader_head" "is_node p s" "state (node p s) \<in> {4, 5, 6}"
    "\<forall>e\<in>set evs. delivers e"
  shows "\<exists>s'. read_calls p evs s = Inr (1, (Writer_head, 0), s') \<or>
              (read_calls p evs s = Inr (1, p, s') \<and> is_node p s' \<and>
               state (node p s') \<in> {4, 5, 6})"
  using assms(2-)
proof (induction evs arbitrary: s)
  case Nil
  then show ?case by auto
next
  case (Cons e es)
  then have "delivers e" by simp
  then obtain b t0 where e: "e = (Some b, t0)" "b \<noteq> []"
    by (rule deliversE)
  from while_len_456 [OF Cons.prems(2), of b]
  show ?case
  proof
    assume "while_len (state (node p s)) b = Do_get"
    then show ?thesis
      using e assms(1) by (auto simp: client_read_bytes)
  next
    assume "\<exists>st'\<in>{4, 5, 6}. while_len (state (node p s)) b = Return1 st'"
    then obtain st' where st': "st' \<in> {4, 5, 6}"
      "while_len (state (node p s)) b = Return1 st'" by auto
    let ?s1 = "upd p (\<lambda>c. c\<lparr>state := st'\<rparr>) (upd p (\<lambda>c. c\<lparr>last_ts := t0\<rparr>) s)"
    have step: "read_calls p (e # es) s = read_calls p es ?s1"
      using e st' by (simp add: client_read_bytes)
    have "is_node p ?s1" "state (node p ?s1) \<in> {4, 5, 6}"
      using Cons.prems(1) st'(1) by (simp_all add: is_node_upd node_upd_same)
    from Cons.IH [OF this] Cons.prems(3) step show ?thesis by auto
  qed
qed

lemma no_rejection_after_method_and_space_example:
  "\<exists>s'. read_calls (Reader_head, 0)
            [(Some ''index.html HTTP/1.0'', 101), (Some ''X-Long: aaaa'', 102)] (reader_in 4) =
          Inr (1, (Writer_head, 0), s') \<or>
        (read_calls (Reader_head, 0)
            [(Some ''index.html HTTP/1.0'', 101), (Some ''X-Long: aaaa'', 102)] (reader_in 4) =
          Inr (1, (Reader_head, 0), s') \<and>
         is_node (Reader_head, 0) s' \<and> state (node (Reader_head, 0) s') \<in> {4, 5, 6})"
  by (rule no_rejection_after_method_and_space)
    (simp_all add: is_node_def node_def list_of_def reader_in_def one_reader_def delivers_def)

text \<open>
  C6. For a node of the reader list in any state, reads that deliver the chunks of a
  byte sequence one after the other, the state kept in the node between the calls,
  end exactly as one read that delivers the whole sequence does (at the time of one of
  the reads): the same return value, the same place of the node and the same globals.
\<close>

theorem chunking_homomorphism:
  assumes "fst p = Reader_head" "is_node p s" "evs \<noteq> []" "\<forall>e\<in>set evs. delivers e"
  shows "\<exists>t\<in>snd ` set evs.
           read_calls p evs s = client_read p (Some (concat (map bytes evs)), t) s"
  using assms by (rule read_calls_concat)

theorem chunking_homomorphism_witness:
  "\<exists>t\<in>snd ` set [(Some ''G'', 101), (Some ''ET /'', 102), (Some [CHR 0x0A, CHR 0x0D], 103)].
     read_calls (Reader_head, 0)
       [(Some ''G'', 101), (Some ''ET /'', 102), (Some [CHR 0x0A, CHR 0x0D], 103)] one_reader =
     client_read (Reader_head, 0)
       (Some (concat (map bytes
          [(Some ''G'', 101), (Some ''ET /'', 102), (Some [CHR 0x0A, CHR 0x0D], 103)])), t) one_reader"
  by (rule chunking_homomorphism)
    (simp_all add: is_node_def list_of_def one_reader_def delivers_def)

section \<open>The response writer\<close>

lemma sent_wire_append:
  "sent d (s\<lparr>wire := wire s @ [(d', bs)]\<rparr>) = (if d' = d then sent d s @ bs else sent d s)"
  by (simp add: sent_def)

lemma sent_upd: "sent d (upd p f s) = sent d s"
  by (simp add: sent_def upd_fields)

lemma sent_stderr: "sent d (s\<lparr>stderr := x\<rparr>) = sent d s"
  by (simp add: sent_def)

lemma node_wire_update: "node p (s\<lparr>wire := x\<rparr>) = node p s"
  by (cases "fst p") (simp_all add: node_def list_of_def)

lemma is_node_wire_update: "is_node p (s\<lparr>wire := x\<rparr>) = is_node p s"
  by (cases "fst p") (simp_all add: is_node_def list_of_def)

lemma client_write_call:
  assumes "is_node p s" "state (node p s) = 0 \<or> state (node p s) = 1"
    and "buf = (if state (node p s) = 0 then hdr s else msg s)"
    and "write_ofs (node p s) \<le> length buf" "length buf < 2 ^ 32"
    and "fd (node p s) \<noteq> - 1" "accepts_some e"
    and "res = fst e (int (length buf) - int (write_ofs (node p s)))"
  shows "0 \<le> res \<and> min 1 (length buf - write_ofs (node p s)) \<le> nat res \<and>
         write_ofs (node p s) + nat res \<le> length buf \<and>
         client_write p e s =
           Inr (1, p,
             upd p (\<lambda>c. (if write_ofs (node p s) + nat res = length buf
                           then c\<lparr>state := state c + 1, write_ofs := 0\<rparr>
                           else c\<lparr>write_ofs := write_ofs (node p s) + nat res\<rparr>)\<lparr>last_ts := snd e\<rparr>)
               (s\<lparr>wire := wire s @
                   [(fd (node p s), take (nat res) (drop (write_ofs (node p s)) buf))]\<rparr>))"
proof -
  let ?n = "int (length buf) - int (write_ofs (node p s))"
  have n: "0 \<le> ?n" using assms(4) by simp
  with assms(7) have r: "min 1 ?n \<le> res" "res \<le> ?n"
    by (auto simp: accepts_some_def assms(8))
  then have r0: "0 \<le> res" using n by linarith
  have le: "write_ofs (node p s) + nat res \<le> length buf" using r r0 by linarith
  have m: "(write_ofs (node p s) + nat res) mod 2 ^ 32 = write_ofs (node p s) + nat res"
    using le assms(5) by simp
  have mn: "min 1 (length buf - write_ofs (node p s)) \<le> nat res" using r r0 n by linarith
  have iff: "(int (write_ofs (node p s)) + res = int (length buf)) =
             (write_ofs (node p s) + nat res = length buf)"
    using r0 by linarith
  show ?thesis
    using assms(2,6) r0 le mn m
    by (auto simp: client_write_def Let_def iff assms(3,8) [symmetric])
qed

lemma write_call_progress:
  assumes w: "writing p s" and st: "state (node p s) = 0 \<or> state (node p s) = 1"
    and e: "accepts_some e" and d: "fd (node p s) = d"
  shows "\<exists>s'. client_write p e s = Inr (1, p, s') \<and> writing p s' \<and> fd (node p s') = d \<and>
           hdr s' = hdr s \<and> msg s' = msg s \<and>
           calls_left (node p s') s' < calls_left (node p s) s \<and>
           sent d s' @ to_send (node p s') s' = sent d s @ to_send (node p s) s \<and>
           state (node p s') \<in> {0, 1, 2}"
proof -
  define buf where "buf = (if state (node p s) = 0 then hdr s else msg s)"
  define res where "res = fst e (int (length buf) - int (write_ofs (node p s)))"
  let ?ofs = "write_ofs (node p s)"
  have n: "is_node p s" and f: "fd (node p s) \<noteq> - 1" using w by (simp_all add: writing_def)
  have o: "write_ofs (node p s) \<le> length buf" and l: "length buf < 2 ^ 32"
    using w st by (auto simp: writing_def buf_def)
  from client_write_call [OF n st buf_def o l f e res_def]
  have c: "0 \<le> res" "min 1 (length buf - ?ofs) \<le> nat res" "?ofs + nat res \<le> length buf"
    "client_write p e s =
       Inr (1, p,
         upd p (\<lambda>c. (if ?ofs + nat res = length buf
                       then c\<lparr>state := state c + 1, write_ofs := 0\<rparr>
                       else c\<lparr>write_ofs := ?ofs + nat res\<rparr>)\<lparr>last_ts := snd e\<rparr>)
           (s\<lparr>wire := wire s @ [(fd (node p s), take (nat res) (drop ?ofs buf))]\<rparr>))"
    by simp_all
  let ?s1 = "s\<lparr>wire := wire s @ [(fd (node p s), take (nat res) (drop ?ofs buf))]\<rparr>"
  let ?f = "\<lambda>c. (if ?ofs + nat res = length buf
                       then c\<lparr>state := state c + 1, write_ofs := 0\<rparr>
                       else c\<lparr>write_ofs := ?ofs + nat res\<rparr>)\<lparr>last_ts := snd e\<rparr>"
  let ?s' = "upd p ?f ?s1"
  have nd: "node p ?s' = ?f (node p s)"
    using n by (simp add: node_upd_same is_node_wire_update node_wire_update)
  have td: "take (nat res) (drop ?ofs buf) @ drop (?ofs + nat res) buf = drop ?ofs buf"
    by (metis add.commute append_take_drop_id drop_drop)
  have full: "?ofs + nat res = length buf \<Longrightarrow> take (nat res) (drop ?ofs buf) = drop ?ofs buf"
    by simp
  show ?thesis
  proof (intro exI conjI)
    show "client_write p e s = Inr (1, p, ?s')" by (rule c(4))
    show "writing p ?s'"
      using w st c(3) unfolding writing_def nd
      by (auto simp: is_node_upd is_node_wire_update upd_fields buf_def)
    show "fd (node p ?s') = d" unfolding nd using d by simp
    show "hdr ?s' = hdr s" "msg ?s' = msg s" by (simp_all add: upd_fields)
    show "calls_left (node p ?s') ?s' < calls_left (node p s) s"
      using st c(2,3) o unfolding nd
      by (auto simp: calls_left_def upd_fields buf_def split: if_splits)
    show "sent d ?s' @ to_send (node p ?s') ?s' = sent d s @ to_send (node p s) s"
      using st d td full unfolding nd
      by (auto simp: to_send_def upd_fields sent_upd sent_wire_append buf_def)
    show "state (node p ?s') \<in> {0, 1, 2}" unfolding nd using st by auto
  qed
qed

lemma write_call_done:
  assumes "state (node p s) \<noteq> 0" "state (node p s) \<noteq> 1"
  shows "client_write p e s =
           Inr (0, p, s\<lparr>stderr := stderr s @ [Closing_completed (fd (node p s))]\<rparr>)"
  using assms by (simp add: client_write_def Let_def)

lemma node_stderr_update: "node p (s\<lparr>stderr := x\<rparr>) = node p s"
  by (cases "fst p") (simp_all add: node_def list_of_def)

lemma write_calls_deliver:
  assumes "writing p s" "state (node p s) \<in> {0, 1, 2}" "fd (node p s) = d"
    "\<forall>e\<in>set evs. accepts_some e" "calls_left (node p s) s < length evs"
  shows "\<exists>s'. write_calls p evs s = Inr (0, s') \<and>
           sent d s' = sent d s @ to_send (node p s) s \<and> state (node p s') = 2"
  using assms
proof (induction evs arbitrary: s)
  case Nil
  then show ?case by simp
next
  case (Cons e es)
  show ?case
  proof (cases "state (node p s) = 2")
    case True
    then show ?thesis
      by (simp add: write_call_done to_send_def sent_stderr node_stderr_update)
  next
    case False
    then have st: "state (node p s) = 0 \<or> state (node p s) = 1" using Cons.prems(2) by auto
    have e: "accepts_some e" using Cons.prems(4) by simp
    from write_call_progress [OF Cons.prems(1) st e Cons.prems(3)]
    obtain s1 where s1: "client_write p e s = Inr (1, p, s1)" "writing p s1"
      "fd (node p s1) = d" "calls_left (node p s1) s1 < calls_left (node p s) s"
      "sent d s1 @ to_send (node p s1) s1 = sent d s @ to_send (node p s) s"
      "state (node p s1) \<in> {0, 1, 2}"
      by blast
    have "calls_left (node p s1) s1 < length es" using s1(4) Cons.prems(5) by simp
    from Cons.IH [OF s1(2) s1(6) s1(3) _ this] Cons.prems(4)
    obtain s' where "write_calls p es s1 = Inr (0, s')"
      "sent d s' = sent d s1 @ to_send (node p s1) s1" "state (node p s') = 2"
      by auto
    then show ?thesis using s1(1,5) by simp
  qed
qed

lemma writing_fresh:
  assumes "is_node p s" "state (node p s) = 0" "write_ofs (node p s) = 0" "fd (node p s) \<noteq> - 1"
    "length (hdr s) < 2 ^ 32" "length (msg s) < 2 ^ 32"
  shows "writing p s" "to_send (node p s) s = hdr s @ msg s"
    "calls_left (node p s) s = length (hdr s) + length (msg s) + 2"
  using assms by (simp_all add: writing_def to_send_def calls_left_def)


lemma one_byte_transport: "accepts_some (\<lambda>n. min 1 n, t)"
  by (simp add: accepts_some_def)


section \<open>A whole request\<close>

lemma do_get_reader:
  assumes "fst p = Reader_head" "is_node p s"
  shows "reader_head (do_get p (upd p f s)) = unlink (snd p) (reader_head s)"
    "writer_head (do_get p (upd p f s)) = (f (node p s))\<lparr>write_ofs := 0, state := 0\<rparr> # writer_head s"
    "rfds (do_get p (upd p f s)) = rfds s - {fd (f (node p s))}"
    "wfds (do_get p (upd p f s)) = insert (fd (f (node p s))) (wfds s)"
    "wire (do_get p (upd p f s)) = wire s"
    "hdr (do_get p (upd p f s)) = hdr s" "msg (do_get p (upd p f s)) = msg s"
    "closed (do_get p (upd p f s)) = closed s" "stderr (do_get p (upd p f s)) = stderr s"
  using assms
  by (cases p; simp add: do_get_alt Let_def upd_def node_def list_of_def set_list_def
      unlink_update is_node_def)+

lemma request_line_completes:
  "while_len 0 (''GET / HTTP/1.0'' @ [CHR 0x0D, CHR 0x0A, CHR 0x0D, CHR 0x0A]) = Do_get"
  by simp

text \<open>
  The handlers alone, each for a node of its own list. A node of the reader list in state
  0 whose reads deliver exactly \<^verbatim>\<open>GET / HTTP/1.0\r\n\r\n\<close>, in however many chunks: the
  calls of \<^verbatim>\<open>client_read\<close> end with \<^verbatim>\<open>do_get\<close>, after which the node has left the reader
  list and is the head of the writer list, with \<^verbatim>\<open>write_ofs\<close> 0 and \<^verbatim>\<open>state\<close> 0 (the
  header phase), its descriptor cleared from \<^verbatim>\<open>rfds\<close> and set in \<^verbatim>\<open>wfds\<close>, and nothing
  written yet. Then the calls of \<^verbatim>\<open>client_write\<close> for this node, with transports that
  accept between one byte and what they are asked for, put exactly the header followed
  by the body on the wire and end in the phase "done". The last section has a run of
  the loop in which \<^verbatim>\<open>client_read\<close> is called for the node while it is a writer.
\<close>

lemma exact_request_is_served:
  assumes "fst p = Reader_head" "is_node p s" "state (node p s) = 0"
    "fd (node p s) = d" "d \<noteq> - 1"
    "\<forall>e\<in>set evs. delivers e"
    "concat (map bytes evs) = ''GET / HTTP/1.0'' @ [CHR 0x0D, CHR 0x0A, CHR 0x0D, CHR 0x0A]"
    "length (hdr s) < 2 ^ 32" "length (msg s) < 2 ^ 32"
    "\<forall>e\<in>set wevs. accepts_some e" "length (hdr s) + length (msg s) + 2 < length wevs"
  shows "\<exists>t\<in>snd ` set evs. \<exists>s1 s2.
           read_calls p evs s = Inr (1, (Writer_head, 0), s1) \<and>
           reader_head s1 = unlink (snd p) (reader_head s) \<and>
           writer_head s1 = (node p s)\<lparr>last_ts := t, write_ofs := 0, state := 0\<rparr> # writer_head s \<and>
           rfds s1 = rfds s - {d} \<and> wfds s1 = insert d (wfds s) \<and>
           sent d s1 = sent d s \<and>
           write_calls (Writer_head, 0) wevs s1 = Inr (0, s2) \<and>
           sent d s2 = sent d s @ hdr s @ msg s"
proof -
  have ne: "evs \<noteq> []" using assms(7) by auto
  from read_calls_concat [OF assms(1,2) ne assms(6)]
  obtain t where t: "t \<in> snd ` set evs"
    "read_calls p evs s = client_read p (Some (concat (map bytes evs)), t) s"
    by blast
  let ?s1 = "do_get p (upd p (\<lambda>c. c\<lparr>last_ts := t\<rparr>) s)"
  have r: "read_calls p evs s = Inr (1, (Writer_head, 0), ?s1)"
    unfolding t(2) assms(7)
    by (subst client_read_bytes) (simp_all only: assms(3) request_line_completes scan.case, simp)
  note g = do_get_reader [OF assms(1,2), of "\<lambda>c. c\<lparr>last_ts := t\<rparr>"]
  have w: "writer_head ?s1 = (node p s)\<lparr>last_ts := t, write_ofs := 0, state := 0\<rparr> # writer_head s"
    by (simp add: g)
  have n: "is_node (Writer_head, 0) ?s1" "state (node (Writer_head, 0) ?s1) = 0"
    "write_ofs (node (Writer_head, 0) ?s1) = 0" "fd (node (Writer_head, 0) ?s1) \<noteq> - 1"
    "length (hdr ?s1) < 2 ^ 32" "length (msg ?s1) < 2 ^ 32"
    using assms(4,5,8,9) by (simp_all add: is_node_def node_def list_of_def g)
  have d: "fd (node (Writer_head, 0) ?s1) = d"
    using assms(4) by (simp add: node_def list_of_def w)
  have "calls_left (node (Writer_head, 0) ?s1) ?s1 < length wevs"
    using assms(11) by (simp add: writing_fresh(3) [OF n] g)
  from write_calls_deliver [OF writing_fresh(1) [OF n] _ d assms(10) this] n(2)
  obtain s2 where s2: "write_calls (Writer_head, 0) wevs ?s1 = Inr (0, s2)"
    "sent d s2 = sent d ?s1 @ hdr ?s1 @ msg ?s1"
    by (auto simp: writing_fresh(2) [OF n])
  have sd: "sent d ?s1 = sent d s" by (simp add: sent_def g)
  show ?thesis
    using t(1) r w s2 sd assms(4) by (intro bexI [of _ t] exI [of _ ?s1] exI [of _ s2]) (simp_all add: g)
qed

lemma exact_request_is_served_example:
  "\<exists>t\<in>snd ` set [(Some ''GET / HT'', 101), (Some (''TP/1.0'' @ [CHR 0x0D, CHR 0x0A, CHR 0x0D, CHR 0x0A]), 102)].
     \<exists>s1 s2.
       read_calls (Reader_head, 0)
         [(Some ''GET / HT'', 101), (Some (''TP/1.0'' @ [CHR 0x0D, CHR 0x0A, CHR 0x0D, CHR 0x0A]), 102)]
         one_reader = Inr (1, (Writer_head, 0), s1) \<and>
       reader_head s1 = unlink (snd (Reader_head, 0 :: nat)) (reader_head one_reader) \<and>
       writer_head s1 =
         (node (Reader_head, 0) one_reader)\<lparr>last_ts := t, write_ofs := 0, state := 0\<rparr> #
         writer_head one_reader \<and>
       rfds s1 = rfds one_reader - {4} \<and> wfds s1 = insert 4 (wfds one_reader) \<and>
       sent 4 s1 = sent 4 one_reader \<and>
       write_calls (Writer_head, 0) (replicate 14 (\<lambda>n. min 1 n, 103)) s1 = Inr (0, s2) \<and>
       sent 4 s2 = sent 4 one_reader @ hdr one_reader @ msg one_reader"
  by (rule exact_request_is_served)
    (simp_all add: is_node_def node_def list_of_def one_reader_def delivers_def bytes_def
      one_byte_transport)

lemma bad_prefix_rejected:
  assumes "(3 \<le> length bs \<and> take 3 bs \<noteq> ''GET'') \<or> (4 \<le> length bs \<and> bs ! 3 \<noteq> CHR '' '')"
  shows "\<exists>st. while_len 0 bs = Return0 st"
proof -
  from assms have "3 \<le> length bs" by auto
  then obtain a b c r where bs: "bs = a # b # c # r"
    by (auto simp: numeral_3_eq_3 Suc_le_length_iff)
  show ?thesis using assms unfolding bs by (cases r) auto
qed

lemma client_free_reader:
  assumes "fst p = Reader_head" "is_node p s" "fd (node p s) \<noteq> - 1"
  shows "\<exists>s'. client_free p p s = Inr s' \<and> closed s' = closed s @ [fd (node p s)] \<and>
           wire s' = wire s \<and> reader_head s' = unlink (snd p) (reader_head s) \<and>
           writer_head s' = writer_head s \<and> rfds s' = rfds s - {fd (node p s)} \<and>
           wfds s' = wfds s - {fd (node p s)}"
  using assms
  by (cases p) (simp add: client_free_def Let_def set_list_def list_of_def)

text \<open>
  C2. A node of the reader list in state 0 whose reads deliver bytes of which the first
  three are not \<^verbatim>\<open>GET\<close>, or of which the fourth is not a space: a call of
  \<^verbatim>\<open>client_read\<close> returns 0, nothing has been written, and the \<^verbatim>\<open>client_free\<close> that
  \<^verbatim>\<open>process_generic\<close> calls on a 0 unlinks the node and closes its descriptor, still
  with nothing written.
\<close>

theorem wrong_method_is_closed_unanswered:
  assumes "fst p = Reader_head" "is_node p s" "state (node p s) = 0"
    "fd (node p s) = d" "d \<noteq> - 1"
    "\<forall>e\<in>set evs. delivers e" "bs = concat (map bytes evs)"
    "(3 \<le> length bs \<and> take 3 bs \<noteq> ''GET'') \<or> (4 \<le> length bs \<and> bs ! 3 \<noteq> CHR '' '')"
  shows "\<exists>s' s''. read_calls p evs s = Inr (0, p, s') \<and> wire s' = wire s \<and>
           client_free p p (s'\<lparr>stderr := stderr s' @ [Closing_disconnect d]\<rparr>) = Inr s'' \<and>
           closed s'' = closed s @ [d] \<and> wire s'' = wire s \<and>
           reader_head s'' = unlink (snd p) (reader_head s) \<and>
           writer_head s'' = writer_head s \<and> d \<notin> rfds s'' \<and> d \<notin> wfds s''"
proof -
  have ne: "evs \<noteq> []" using assms(7,8) by auto
  from read_calls_concat [OF assms(1,2) ne assms(6)]
  obtain t where t: "read_calls p evs s = client_read p (Some bs, t) s"
    unfolding assms(7) by blast
  from bad_prefix_rejected [OF assms(8)]
  obtain st where st: "while_len 0 bs = Return0 st" by blast
  have bne: "bs \<noteq> []" using assms(8) by auto
  let ?s' = "upd p (\<lambda>c. c\<lparr>state := st\<rparr>) (upd p (\<lambda>c. c\<lparr>last_ts := t\<rparr>) s)"
  let ?s2 = "?s'\<lparr>stderr := stderr ?s' @ [Closing_disconnect d]\<rparr>"
  have r: "read_calls p evs s = Inr (0, p, ?s')"
    unfolding t by (simp add: client_read_bytes [OF bne] assms(3) st)
  have nd: "node p ?s2 = (node p s)\<lparr>last_ts := t, state := st\<rparr>"
    using assms(2) by (simp add: node_stderr_update node_upd_same is_node_upd)
  have n2: "is_node p ?s2"
    using assms(1,2) by (cases p) (simp add: is_node_def list_of_def upd_def set_list_def)
  have f2: "fd (node p ?s2) \<noteq> - 1" using assms(4,5) by (simp add: nd)
  from client_free_reader [OF assms(1) n2 f2]
  obtain s'' where s'': "client_free p p ?s2 = Inr s''" "closed s'' = closed ?s2 @ [fd (node p ?s2)]"
    "wire s'' = wire ?s2" "reader_head s'' = unlink (snd p) (reader_head ?s2)"
    "writer_head s'' = writer_head ?s2" "rfds s'' = rfds ?s2 - {fd (node p ?s2)}"
    "wfds s'' = wfds ?s2 - {fd (node p ?s2)}"
    by blast
  have l: "reader_head ?s2 = (reader_head s)[snd p := (node p s)\<lparr>last_ts := t, state := st\<rparr>]"
    "writer_head ?s2 = writer_head s"
    using assms(1,2)
    by (cases p; simp add: upd_def node_def list_of_def set_list_def is_node_def)+
  note u = s''(2-7) [unfolded nd l]
  have fin: "closed s'' = closed s @ [d]" "wire s'' = wire s"
    "reader_head s'' = unlink (snd p) (reader_head s)" "writer_head s'' = writer_head s"
    "d \<notin> rfds s''" "d \<notin> wfds s''"
    using u assms(4) by (simp_all add: upd_fields unlink_update)
  have "wire ?s' = wire s" by (simp add: upd_fields)
  with r s''(1) fin show ?thesis by blast
qed

theorem wrong_method_is_closed_unanswered_witness:
  "\<exists>s' s''. read_calls (Reader_head, 0) [(Some ''ge'', 101), (Some ''t / HTTP/1.0'', 102)] one_reader =
       Inr (0, (Reader_head, 0), s') \<and> wire s' = wire one_reader \<and>
     client_free (Reader_head, 0) (Reader_head, 0) (s'\<lparr>stderr := stderr s' @ [Closing_disconnect 4]\<rparr>) =
       Inr s'' \<and>
     closed s'' = closed one_reader @ [4] \<and> wire s'' = wire one_reader \<and>
     reader_head s'' = unlink (snd (Reader_head, 0 :: nat)) (reader_head one_reader) \<and>
     writer_head s'' = writer_head one_reader \<and> 4 \<notin> rfds s'' \<and> 4 \<notin> wfds s''"
  by (rule wrong_method_is_closed_unanswered [where bs = "''get / HTTP/1.0''"])
    (simp_all add: is_node_def node_def list_of_def one_reader_def delivers_def bytes_def)

section \<open>Accepting connections\<close>

text \<open>
  C3, as stated, fails: with the listening descriptor ready and two connections pending,
  the accept step of one iteration takes the first only; the second is still pending
  when the traversals start.
\<close>

theorem second_pending_connection_not_accepted:
  "main_accept 3 [4, 5] 100 listening =
     Inr (listening\<lparr>stderr := [New_client 4],
            reader_head := [\<lparr>fd = 4, state = 0, last_ts = 100, write_ofs = 0\<rparr>],
            rfds := {3, 4}, fd_max := 4\<rparr>, [5])"
  by (simp add: main_accept_def accept_nb_def client_accept_def listening_def one_reader_def
      insert_commute)

text \<open>
  C3, amended. When the listening descriptor is reported ready, the iteration calls
  \<^verbatim>\<open>accept\<close> once. With no connection pending nothing is added. With connections
  pending, the first becomes a new node at the head of the reader list, with
  \<^verbatim>\<open>last\<close> the current time, state 0 and its descriptor set in \<^verbatim>\<open>rfds\<close>; the others
  stay pending.
\<close>

theorem one_accept_per_iteration:
  assumes "listen_fd \<in> rfds s"
  shows "main_accept listen_fd [] t s = Inr (s\<lparr>rfds := insert listen_fd (rfds s)\<rparr>, []) \<and>
         (0 \<le> newfd \<longrightarrow>
            main_accept listen_fd (newfd # rest) t s =
              Inr (s\<lparr>stderr := stderr s @ [New_client newfd],
                     reader_head := \<lparr>fd = newfd, state = 0, last_ts = t, write_ofs = 0\<rparr> #
                                    reader_head s,
                     rfds := insert listen_fd (insert newfd (rfds s)),
                     fd_max := max newfd (fd_max s)\<rparr>, rest))"
  using assms
  by (auto simp: main_accept_def accept_nb_def client_accept_def Let_def max_def)

theorem one_accept_per_iteration_witness:
  "3 \<in> rfds listening \<and>
   main_accept 3 [] 100 listening = Inr (listening\<lparr>rfds := insert 3 (rfds listening)\<rparr>, []) \<and>
   main_accept 3 (4 # [5, 6]) 100 listening =
     Inr (listening\<lparr>stderr := stderr listening @ [New_client 4],
            reader_head := \<lparr>fd = 4, state = 0, last_ts = 100, write_ofs = 0\<rparr> #
                           reader_head listening,
            rfds := insert 3 (insert 4 (rfds listening)),
            fd_max := max 4 (fd_max listening)\<rparr>, [5, 6])"
proof -
  have h: "3 \<in> rfds listening" by (simp add: listening_def one_reader_def)
  from one_accept_per_iteration [OF h, of 100 4 "[5, 6]"] h show ?thesis by simp
qed

section \<open>The idle check\<close>

text \<open>
  C4, as stated, fails: a record last active at 100 is evicted by the traversal at
  time 105, when its idle time equals the threshold.
\<close>

theorem idle_exactly_threshold_is_evicted:
  "105 - last_ts (hd (reader_head one_reader)) = HTTP_TIMEOUT \<and>
   process_readers 105 [] one_reader =
     Inr (one_reader\<lparr>reader_head := [], youngest := 100, rfds := {3}, closed := [4],
            stderr := [New_client 4, Closing_timeout 4]\<rparr>, [])"
  by (simp add: process_readers_def process_generic_def process_loop.simps one_reader_def
      is_node_def node_def list_of_def HTTP_TIMEOUT_def INT_MAX_def track_youngest_def
      client_free_def Let_def set_list_def unlink_def insert_Diff_if)

section \<open>The traversal, branch by branch\<close>

lemma node_track_youngest: "node p (track_youngest c s) = node p s"
  by (simp add: node_def list_of_track_youngest)

lemma is_node_track_youngest: "is_node p (track_youngest c s) = is_node p s"
  by (simp add: is_node_def list_of_track_youngest)

lemma track_youngest_fields:
  "stderr (track_youngest c s) = stderr s" "rfds (track_youngest c s) = rfds s"
  "wfds (track_youngest c s) = wfds s" "closed (track_youngest c s) = closed s"
  "wire (track_youngest c s) = wire s" "hdr (track_youngest c s) = hdr s"
  "msg (track_youngest c s) = msg s"
  "youngest (track_youngest c s) = min (youngest s) (last_ts c)"
  by (simp_all add: track_youngest_def min_def)

lemma get_fds_track_youngest: "get_fds fds (track_youngest c s) = get_fds fds s"
  by (cases fds) (simp_all add: get_fds_def track_youngest_fields)

lemma process_loop_end:
  "\<not> is_node prev s \<Longrightarrow> process_loop fds f timeout prev evs s = Inr (s, evs)"
  by (subst process_loop.simps) simp

lemma process_loop_idle:
  "is_node prev s \<Longrightarrow> last_ts (node prev s) \<le> timeout \<Longrightarrow>
   process_loop fds f timeout prev evs s =
     (case client_free prev prev
             ((track_youngest (node prev s) s)
                \<lparr>stderr := stderr s @ [Closing_timeout (fd (node prev s))]\<rparr>) of
        Inl x \<Rightarrow> Inl x
      | Inr s2 \<Rightarrow> process_loop fds f timeout prev evs s2)"
  by (subst process_loop.simps) (simp add: Let_def track_youngest_fields)

lemma process_loop_skip:
  "is_node prev s \<Longrightarrow> \<not> last_ts (node prev s) \<le> timeout \<Longrightarrow>
   fd (node prev s) \<notin> get_fds fds s \<Longrightarrow>
   process_loop fds f timeout prev evs s =
     process_loop fds f timeout (fst prev, Suc (snd prev)) evs
       (FD_SET (fd (node prev s)) fds (track_youngest (node prev s) s))"
  by (subst process_loop.simps) (simp add: Let_def get_fds_track_youngest)

lemma process_loop_starved:
  "is_node prev s \<Longrightarrow> \<not> last_ts (node prev s) \<le> timeout \<Longrightarrow>
   fd (node prev s) \<in> get_fds fds s \<Longrightarrow>
   process_loop fds f timeout prev [] s = Inl Starved"
  by (subst process_loop.simps) (simp add: Let_def get_fds_track_youngest)

lemma process_loop_ready:
  "is_node prev s \<Longrightarrow> \<not> last_ts (node prev s) \<le> timeout \<Longrightarrow>
   fd (node prev s) \<in> get_fds fds s \<Longrightarrow>
   process_loop fds f timeout prev (e # evs) s =
     (case f prev e (track_youngest (node prev s) s) of
        Inl x \<Rightarrow> Inl x
      | Inr (r, cl, s2) \<Rightarrow>
          if r = 0 then
            (case client_free cl prev
                    (s2\<lparr>stderr := stderr s2 @ [Closing_disconnect (fd (node cl s2))]\<rparr>) of
               Inl x \<Rightarrow> Inl x
             | Inr s3 \<Rightarrow> process_loop fds f timeout prev evs s3)
          else if \<not> is_node cl s2 then Inl (Assertion ''curr'')
          else process_loop fds f timeout (fst cl, Suc (snd cl)) evs
                 (FD_SET (fd (node cl s2)) fds s2))"
  by (subst process_loop.simps) (simp add: Let_def get_fds_track_youngest)

lemma handler_never_sees_idle:
  assumes "\<forall>p e s. is_node p s \<and> timeout < last_ts (node p s) \<longrightarrow> f p e s = g p e s"
  shows "process_loop fds f timeout prev evs s = process_loop fds g timeout prev evs s"
  using assms
proof (induction fds f timeout prev evs s rule: process_loop.induct)
  case (1 fds foreach timeout prev evs s)
  note fg = "1.prems"
  let ?c = "node prev s" and ?s1 = "track_youngest (node prev s) s"
  show ?case
  proof (cases "is_node prev s")
    case False
    then show ?thesis by (simp add: process_loop_end)
  next
    case n: True
    show ?thesis
    proof (cases "last_ts ?c \<le> timeout")
      case idle: True
      let ?s2 = "?s1\<lparr>stderr := stderr ?s1 @ [Closing_timeout (fd ?c)]\<rparr>"
      show ?thesis
      proof (cases "client_free prev prev ?s2")
        case (Inl x)
        then show ?thesis using n idle by (simp add: process_loop_idle track_youngest_fields)
      next
        case (Inr s3)
        have "process_loop fds foreach timeout prev evs s3 = process_loop fds g timeout prev evs s3"
          using "1.IH"(1) [OF _ refl refl idle Inr fg] n by simp
        then show ?thesis using n idle Inr by (simp add: process_loop_idle track_youngest_fields)
      qed
    next
      case ni: False
      show ?thesis
      proof (cases "fd ?c \<in> get_fds fds ?s1")
        case False
        have "process_loop fds foreach timeout (fst prev, Suc (snd prev)) evs (FD_SET (fd ?c) fds ?s1) =
              process_loop fds g timeout (fst prev, Suc (snd prev)) evs (FD_SET (fd ?c) fds ?s1)"
          using "1.IH"(4) [OF _ refl refl ni False fg] n by simp
        then show ?thesis
          using n ni False by (simp add: process_loop_skip get_fds_track_youngest)
      next
        case rdy: True
        then have rdy': "fd ?c \<in> get_fds fds s" by (simp add: get_fds_track_youngest)
        show ?thesis
        proof (cases evs)
          case Nil
          then show ?thesis using n ni rdy' by (simp add: process_loop_starved)
        next
          case (Cons e evs')
          have eq: "foreach prev e ?s1 = g prev e ?s1"
            using fg [rule_format, of prev ?s1 e] n ni
            by (simp add: node_track_youngest is_node_track_youngest)
          show ?thesis
          proof (cases "foreach prev e ?s1")
            case (Inl x)
            then show ?thesis
              using eq n ni rdy' Cons by (simp add: process_loop_ready)
          next
            case (Inr res)
            obtain r cl s2 where res: "res = (r, cl, s2)" by (cases res)
            have fres: "foreach prev e ?s1 = Inr (r, cl, s2)" using Inr res by simp
            have gres: "g prev e ?s1 = Inr (r, cl, s2)" using eq fres by simp
            show ?thesis
            proof (cases "r = 0")
              case r0: True
              let ?s3 = "s2\<lparr>stderr := stderr s2 @ [Closing_disconnect (fd (node cl s2))]\<rparr>"
              show ?thesis
              proof (cases "client_free cl prev ?s3")
                case (Inl x)
                then show ?thesis
                  using fres gres n ni rdy' Cons r0 by (simp add: process_loop_ready)
              next
                case fr: (Inr s4)
                have "process_loop fds foreach timeout prev evs' s4 =
                      process_loop fds g timeout prev evs' s4"
                  using "1.IH"(2) [OF _ refl refl ni rdy Cons Inr _ _ r0 fr fg, of "(cl, s2)"]
                    n res by simp
                then show ?thesis
                  using fres gres n ni rdy' Cons r0 fr by (simp add: process_loop_ready)
              qed
            next
              case r1: False
              show ?thesis
              proof (cases "is_node cl s2")
                case False
                then show ?thesis
                  using fres gres n ni rdy' Cons r1 by (simp add: process_loop_ready)
              next
                case True
                have "process_loop fds foreach timeout (fst cl, Suc (snd cl)) evs'
                        (FD_SET (fd (node cl s2)) fds s2) =
                      process_loop fds g timeout (fst cl, Suc (snd cl)) evs'
                        (FD_SET (fd (node cl s2)) fds s2)"
                  using "1.IH"(3) [OF _ refl refl ni rdy Cons Inr _ _ r1 _ fg, of "(cl, s2)" cl s2]
                    n res True by simp
                then show ?thesis
                  using fres gres n ni rdy' Cons r1 True by (simp add: process_loop_ready)
              qed
            qed
          qed
        qed
      qed
    qed
  qed
qed

lemma timed_out_stderr: "stderr s' = stderr s \<Longrightarrow> timed_out s' = timed_out s"
  by (simp add: timed_out_def)

lemma timed_out_append:
  "stderr s' = stderr s @ [l] \<Longrightarrow>
   timed_out s' = timed_out s @ (case l of Closing_timeout d \<Rightarrow> [d] | _ \<Rightarrow> [])"
  by (simp add: timed_out_def)

lemma client_free_Inr:
  assumes "client_free cl prev s = Inr s'"
  shows "cl = prev" "is_node prev s" "youngest s' = youngest s" "stderr s' = stderr s"
    "closed s' = closed s @ [fd (node prev s)]" "wire s' = wire s"
    "rfds s' = rfds s - {fd (node prev s)}" "wfds s' = wfds s - {fd (node prev s)}"
    "list_of h s' = (if h = fst prev then unlink (snd prev) (list_of h s) else list_of h s)"
  using assms list_of_client_free [OF assms, of h]
  by (auto simp: client_free_def Let_def set_list_fields split: if_splits)

lemma drop_unlink: "i < length xs \<Longrightarrow> drop i (unlink i xs) = drop (Suc i) xs"
  by (simp add: unlink_def)

lemma Min_insert_min:
  "finite S \<Longrightarrow> Min (insert (min y a) S) = Min (insert y (insert a S))"
  by (cases "S = {}") (simp_all add: min.assoc)

lemma FD_SET_fields:
  "youngest (FD_SET d fds s) = youngest s" "stderr (FD_SET d fds s) = stderr s"
  "closed (FD_SET d fds s) = closed s" "wire (FD_SET d fds s) = wire s"
  by (cases fds; simp add: FD_SET_def)+

lemma list_of_stderr_upd: "list_of h (stderr_update f s) = list_of h s"
  by (cases h) (simp_all add: list_of_def)

lemma node_stderr_upd: "node p (stderr_update f s) = node p s"
  by (simp add: node_def list_of_stderr_upd)

lemma is_node_stderr_upd: "is_node p (stderr_update f s) = is_node p s"
  by (simp add: is_node_def list_of_stderr_upd)

section \<open>The traversal when no node changes place\<close>

lemma client_free_total:
  assumes "is_node p s" "fd (node p s) \<noteq> - 1"
  obtains s' where "client_free p p s = Inr s'" "hdr s' = hdr s" "msg s' = msg s"
  using assms by (simp add: client_free_def Let_def set_list_fields)

lemma FD_SET_sets:
  "rfds (FD_SET d fds s) \<subseteq> insert d (rfds s)" "wfds (FD_SET d fds s) \<subseteq> insert d (wfds s)"
  "get_fds fds (FD_SET d fds s) = insert d (get_fds fds s)"
  "hdr (FD_SET d fds s) = hdr s" "msg (FD_SET d fds s) = msg s"
  by (cases fds; auto simp: FD_SET_def get_fds_def)+

lemma timed_out_log:
  "timed_out (s\<lparr>stderr := stderr s @ [Closing_timeout d]\<rparr>) = timed_out s @ [d]"
  "timed_out (s\<lparr>stderr := stderr s @ [Closing_disconnect d]\<rparr>) = timed_out s"
  by (simp_all add: timed_out_def)

lemma handled_cong:
  "\<forall>c\<in>set cs. (fd c \<in> R) = (fd c \<in> R') \<Longrightarrow> handled t R cs = handled t R' cs"
  unfolding handled_def by (rule filter_cong) auto

lemma handled_subset: "set (handled t R cs) \<subseteq> set cs"
  by (auto simp: handled_def)

lemma handled_mono:
  "\<forall>c\<in>set cs. fd c \<in> R' \<longrightarrow> fd c \<in> R \<Longrightarrow> length (handled t R' cs) \<le> length (handled t R cs)"
  by (induction cs) (auto simp: handled_def)

lemma swept_end:
  "\<not> i < length (list_of h s) \<Longrightarrow> swept h i timeout fds s s []"
  by (simp add: swept_def)

lemma get_fds_cases:
  "get_fds fds s = (if fds = Rfds then rfds s else wfds s)"
  by (cases fds) (simp_all add: get_fds_def)

lemma swept_evict:
  assumes i: "i < length (list_of h s)"
    and c: "c = list_of h s ! i"
    and d: "distinct (map fd (drop i (list_of h s)))"
    and l3: "list_of h s3 = unlink i (list_of h s)" "\<And>h'. h' \<noteq> h \<Longrightarrow> list_of h' s3 = list_of h' s"
    and f3: "closed s3 = closed s @ [fd c]" "rfds s3 = rfds s - {fd c}" "wfds s3 = wfds s - {fd c}"
      "youngest s3 = min (youngest s) (last_ts c)"
      "timed_out s3 = timed_out s @ (if last_ts c \<le> timeout then [fd c] else [])"
      "hdr s3 = hdr s" "msg s3 = msg s"
    and v: "last_ts c \<le> timeout \<or> fd c \<in> get_fds fds s"
    and sw: "swept h i timeout fds s3 s' ds"
  shows "swept h i timeout fds s s' (fd c # ds)"
proof -
  let ?xs = "list_of h s" and ?D' = "drop (Suc i) (list_of h s)"
  have dr: "drop i ?xs = c # ?D'" using i c by (simp add: Cons_nth_drop_Suc)
  have d3: "drop i (list_of h s3) = ?D'" using i by (simp add: l3 drop_unlink)
  have t3: "take i (list_of h s3) = take i ?xs" using i by (simp add: l3 unlink_def)
  have nc: "fd c \<notin> fd ` set ?D'" using d dr by auto
  have g3: "get_fds fds s3 = get_fds fds s - {fd c}" by (simp add: get_fds_cases f3)
  note s = sw [unfolded swept_def d3 t3]
  have 1: "youngest s' = Min (insert (youngest s) (last_ts ` set (drop i ?xs)))"
    using s by (simp add: dr f3 Min_insert_min)
  have 2: "timed_out s' =
        timed_out s @ map fd (filter (\<lambda>c. last_ts c \<le> timeout) (drop i ?xs))"
    using s by (simp add: dr f3)
  have 3: "\<forall>h'. h' \<noteq> h \<longrightarrow> list_of h' s' = list_of h' s"
    using s l3(2) by simp
  have 4: "take i (list_of h s') = take i ?xs" using s by simp
  have 5: "closed s' = closed s @ fd c # ds" using s by (simp add: f3)
  have 6: "set (fd c # ds) \<subseteq> fd ` set (drop i ?xs)" using s by (auto simp: dr)
  have 7: "fd ` set (drop i (list_of h s')) = fd ` set (drop i ?xs) - set (fd c # ds)"
    using s nc by (auto simp: dr)
  have 8: "\<forall>c'\<in>set (drop i ?xs). last_ts c' \<le> timeout \<longrightarrow> fd c' \<in> set (fd c # ds)"
    using s by (auto simp: dr)
  have 9: "\<forall>c'\<in>set (drop i ?xs).
         timeout < last_ts c' \<and> fd c' \<notin> get_fds fds s \<longrightarrow> c' \<in> set (drop i (list_of h s'))"
    using s v by (auto simp: dr g3)
  have r: "rfds s' \<subseteq> rfds s - {fd c} \<union> fd ` set ?D'" "wfds s' \<subseteq> wfds s - {fd c} \<union> fd ` set ?D'"
    "set ds \<inter> rfds s' = {}" "set ds \<inter> wfds s' = {}"
    using s by (simp_all add: f3)
  have 10: "set (fd c # ds) \<inter> rfds s' = {}" "set (fd c # ds) \<inter> wfds s' = {}"
    using r nc by auto
  have 11: "rfds s' \<subseteq> rfds s \<union> fd ` set (drop i ?xs)" "wfds s' \<subseteq> wfds s \<union> fd ` set (drop i ?xs)"
    using r by (auto simp: dr)
  have 12: "hdr s' = hdr s" "msg s' = msg s" using s by (simp_all add: f3)
  show ?thesis
    unfolding swept_def using 1 2 3 4 5 6 7 8 9 10 11 12 by blast
qed

lemma swept_keep:
  assumes i: "i < length (list_of h s)"
    and c: "c = list_of h s ! i"
    and d: "distinct (map fd (drop i (list_of h s)))"
    and l2: "list_of h s2 = (list_of h s)[i := c']" "\<And>h'. h' \<noteq> h \<Longrightarrow> list_of h' s2 = list_of h' s"
    and c': "fd c' = fd c" "fd c \<notin> get_fds fds s \<longrightarrow> c' = c"
    and f2: "closed s2 = closed s" "rfds s2 \<subseteq> insert (fd c) (rfds s)"
      "wfds s2 \<subseteq> insert (fd c) (wfds s)"
      "youngest s2 = min (youngest s) (last_ts c)" "timed_out s2 = timed_out s"
      "hdr s2 = hdr s" "msg s2 = msg s"
    and ni: "timeout < last_ts c"
    and sw: "swept h (Suc i) timeout fds s2 s' ds"
  shows "swept h i timeout fds s s' ds"
proof -
  let ?xs = "list_of h s" and ?D' = "drop (Suc i) (list_of h s)"
  let ?ys = "list_of h s'"
  have dr: "drop i ?xs = c # ?D'" using i c by (simp add: Cons_nth_drop_Suc)
  have d2: "drop (Suc i) (list_of h s2) = ?D'" by (simp add: l2)
  have nc: "fd c \<notin> fd ` set ?D'" using d dr by auto
  have g2: "get_fds fds s2 \<subseteq> insert (fd c) (get_fds fds s)"
    using f2 by (simp add: get_fds_cases)
  note s = sw [unfolded swept_def d2]
  have tk: "take (Suc i) ?ys = take (Suc i) (?xs[i := c'])" using s by (simp add: l2)
  have len: "i < length ?ys"
  proof -
    have "length (take (Suc i) ?ys) = length (take (Suc i) (?xs[i := c']))" using tk by simp
    then show ?thesis using i by simp
  qed
  have yi: "?ys ! i = c'"
  proof -
    have "?ys ! i = take (Suc i) ?ys ! i" by simp
    also have "\<dots> = take (Suc i) (?xs[i := c']) ! i" using tk by simp
    also have "\<dots> = c'" using i by simp
    finally show ?thesis .
  qed
  have dk: "drop i ?ys = c' # drop (Suc i) ?ys" using Cons_nth_drop_Suc [OF len] yi by simp
  have 4: "take i ?ys = take i ?xs"
  proof -
    have "take i ?ys = take i (take (Suc i) ?ys)" by (simp add: min_def)
    also have "\<dots> = take i (take (Suc i) (?xs[i := c']))" using tk by simp
    also have "\<dots> = take i ?xs" by (simp add: min_def)
    finally show ?thesis .
  qed
  have nds: "fd c \<notin> set ds" using s nc by auto
  have 1: "youngest s' = Min (insert (youngest s) (last_ts ` set (drop i ?xs)))"
    using s by (simp add: dr f2 Min_insert_min)
  have 2: "timed_out s' =
        timed_out s @ map fd (filter (\<lambda>c. last_ts c \<le> timeout) (drop i ?xs))"
    using s ni by (simp add: dr f2)
  have 3: "\<forall>h'. h' \<noteq> h \<longrightarrow> list_of h' s' = list_of h' s"
    using s l2(2) by simp
  have 5: "closed s' = closed s @ ds" using s by (simp add: f2)
  have 6: "set ds \<subseteq> fd ` set (drop i ?xs)" using s by (auto simp: dr)
  have 7: "fd ` set (drop i ?ys) = fd ` set (drop i ?xs) - set ds"
    using s nds by (auto simp: dr dk c')
  have 8: "\<forall>c'\<in>set (drop i ?xs). last_ts c' \<le> timeout \<longrightarrow> fd c' \<in> set ds"
    using s ni by (auto simp: dr)
  have 9: "\<forall>x\<in>set (drop i ?xs).
         timeout < last_ts x \<and> fd x \<notin> get_fds fds s \<longrightarrow> x \<in> set (drop i ?ys)"
  proof (intro ballI impI)
    fix x assume x: "x \<in> set (drop i ?xs)" and p: "timeout < last_ts x \<and> fd x \<notin> get_fds fds s"
    show "x \<in> set (drop i ?ys)"
    proof (cases "x = c")
      case True
      then show ?thesis using p c' by (simp add: dk)
    next
      case False
      then have x': "x \<in> set ?D'" using x by (simp add: dr)
      then have "fd x \<noteq> fd c" using nc by (metis imageI)
      then have "fd x \<notin> get_fds fds s2" using p g2 by auto
      then have "x \<in> set (drop (Suc i) ?ys)" using s x' p by blast
      then show ?thesis by (simp add: dk)
    qed
  qed
  have 10: "set ds \<inter> rfds s' = {}" "set ds \<inter> wfds s' = {}" using s by simp_all
  have 11: "rfds s' \<subseteq> rfds s \<union> fd ` set (drop i ?xs)" "wfds s' \<subseteq> wfds s \<union> fd ` set (drop i ?xs)"
    using s f2 by (auto simp: dr)
  have 12: "hdr s' = hdr s" "msg s' = msg s" using s by (simp_all add: f2)
  show ?thesis
    unfolding swept_def using 1 2 3 4 5 6 7 8 9 10 11 12 by blast
qed

lemma process_loop_sweep:
  assumes "length (list_of h s) - i = n"
    and "distinct (map fd (drop i (list_of h s)))"
    and "\<forall>c\<in>set (drop i (list_of h s)). fd c \<noteq> - 1"
    and "\<forall>(c, e)\<in>set (zip (handled timeout (get_fds fds s) (drop i (list_of h s))) evs).
           stays foreach (hdr s) (msg s) c e"
    and "length (handled timeout (get_fds fds s) (drop i (list_of h s))) \<le> length evs"
  shows "\<exists>s' ds. process_loop fds foreach timeout (h, i) evs s =
           Inr (s', drop (length (handled timeout (get_fds fds s) (drop i (list_of h s)))) evs) \<and>
           swept h i timeout fds s s' ds"
  using assms
proof (induction n arbitrary: i s evs)
  case 0
  then have n: "\<not> i < length (list_of h s)" by simp
  then have "process_loop fds foreach timeout (h, i) evs s = Inr (s, evs)"
    by (simp add: process_loop_end is_node_def)
  moreover have "handled timeout (get_fds fds s) (drop i (list_of h s)) = []"
    using n by (simp add: handled_def)
  ultimately show ?case using swept_end [OF n] by auto
next
  case (Suc n)
  let ?xs = "list_of h s" and ?p = "(h, i)"
  let ?c = "list_of h s ! i" and ?D' = "drop (Suc i) (list_of h s)"
  let ?R = "get_fds fds s"
  let ?s1 = "track_youngest ?c s"
  note d = Suc.prems(2) and nz = Suc.prems(3) and st = Suc.prems(4) and en = Suc.prems(5)
  have i: "i < length ?xs" using Suc.prems(1) by simp
  have n: "is_node ?p s" and c: "node ?p s = ?c" using i by (simp_all add: is_node_def node_def)
  have dr: "drop i ?xs = ?c # ?D'" using i by (simp add: Cons_nth_drop_Suc)
  have nc: "fd ?c \<notin> fd ` set ?D'" using d dr by auto
  have fdc: "fd ?c \<noteq> - 1" using nz dr by simp
  have d': "distinct (map fd ?D')" using d dr by simp
  have nz': "\<forall>c\<in>set ?D'. fd c \<noteq> - 1" using nz dr by simp
  have cong: "handled timeout R' ?D' = handled timeout ?R ?D'"
    if "R' - {fd ?c} = ?R - {fd ?c}" for R'
  proof (rule handled_cong, rule ballI)
    fix x assume "x \<in> set ?D'"
    then have "fd x \<noteq> fd ?c" using nc by (metis imageI)
    then show "(fd x \<in> R') = (fd x \<in> ?R)" using that by blast
  qed
  show ?case
  proof (cases "last_ts ?c \<le> timeout")
    case idle: True
    let ?s2 = "?s1\<lparr>stderr := stderr s @ [Closing_timeout (fd ?c)]\<rparr>"
    have n2: "is_node ?p ?s2" "node ?p ?s2 = ?c"
      using n c by (simp_all add: is_node_stderr_upd node_stderr_upd is_node_track_youngest
          node_track_youngest)
    from client_free_total [of ?p ?s2] n2 fdc
    obtain s3 where fr: "client_free ?p ?p ?s2 = Inr s3"
      and h3: "hdr s3 = hdr s" "msg s3 = msg s"
      by (auto simp: track_youngest_fields)
    note f = client_free_Inr [OF fr]
    have l3: "list_of h s3 = unlink i ?xs" "\<And>h'. h' \<noteq> h \<Longrightarrow> list_of h' s3 = list_of h' s"
      by (simp_all add: f(9) list_of_stderr_upd list_of_track_youngest)
    have f3: "closed s3 = closed s @ [fd ?c]" "rfds s3 = rfds s - {fd ?c}"
      "wfds s3 = wfds s - {fd ?c}" "youngest s3 = min (youngest s) (last_ts ?c)"
      by (simp_all add: f(3,5,7,8) n2(2) track_youngest_fields)
    have t3: "timed_out s3 = timed_out s @ (if last_ts ?c \<le> timeout then [fd ?c] else [])"
      using timed_out_stderr [OF f(4)] timed_out_log(1) [of ?s1 "fd ?c"]
        timed_out_stderr [of ?s1 s] idle
      by (simp add: track_youngest_fields)
    have d3: "drop i (list_of h s3) = ?D'" using i by (simp add: l3 drop_unlink)
    have g3: "get_fds fds s3 - {fd ?c} = ?R - {fd ?c}" by (auto simp: get_fds_cases f3)
    have hv: "handled timeout ?R (drop i ?xs) = handled timeout ?R ?D'"
      using idle by (simp add: dr handled_def)
    have hv3: "handled timeout (get_fds fds s3) (drop i (list_of h s3)) = handled timeout ?R ?D'"
      by (simp add: d3 cong [OF g3])
    have "\<exists>s' ds. process_loop fds foreach timeout (h, i) evs s3 =
           Inr (s', drop (length (handled timeout (get_fds fds s3) (drop i (list_of h s3)))) evs) \<and>
           swept h i timeout fds s3 s' ds"
    proof (rule Suc.IH)
      show "length (list_of h s3) - i = n" using Suc.prems(1) i by (simp add: l3 length_unlink)
      show "distinct (map fd (drop i (list_of h s3)))" using d' by (simp add: d3)
      show "\<forall>c\<in>set (drop i (list_of h s3)). fd c \<noteq> - 1" using nz' by (simp add: d3)
      show "\<forall>(c, e)\<in>set (zip (handled timeout (get_fds fds s3) (drop i (list_of h s3))) evs).
              stays foreach (hdr s3) (msg s3) c e"
        using st by (simp add: hv3 hv h3)
      show "length (handled timeout (get_fds fds s3) (drop i (list_of h s3))) \<le> length evs"
        using en by (simp add: hv3 hv)
    qed
    then obtain s' ds where
      rec: "process_loop fds foreach timeout (h, i) evs s3 =
              Inr (s', drop (length (handled timeout ?R ?D')) evs)"
      and sw: "swept h i timeout fds s3 s' ds"
      by (auto simp: hv3)
    have "process_loop fds foreach timeout (h, i) evs s =
            Inr (s', drop (length (handled timeout ?R (drop i ?xs))) evs)"
      using n c idle fr rec by (simp add: process_loop_idle hv)
    moreover have "swept h i timeout fds s s' (fd ?c # ds)"
      by (rule swept_evict [OF i refl d l3 f3 t3 h3 disjI1 [OF idle] sw])
    ultimately show ?thesis by blast
  next
    case ni: False
    then have ni': "timeout < last_ts ?c" by simp
    show ?thesis
    proof (cases "fd ?c \<in> ?R")
      case False
      let ?s2 = "FD_SET (fd ?c) fds ?s1"
      have l2: "list_of h ?s2 = ?xs[i := ?c]" "\<And>h'. h' \<noteq> h \<Longrightarrow> list_of h' ?s2 = list_of h' s"
        by (simp_all add: list_of_FD_SET list_of_track_youngest)
      have l2': "list_of h ?s2 = ?xs" by (simp add: list_of_FD_SET list_of_track_youngest)
      have f2: "closed ?s2 = closed s" "rfds ?s2 \<subseteq> insert (fd ?c) (rfds s)"
        "wfds ?s2 \<subseteq> insert (fd ?c) (wfds s)" "youngest ?s2 = min (youngest s) (last_ts ?c)"
        using FD_SET_sets(1,2) [of "fd ?c" fds ?s1]
        by (simp_all add: FD_SET_fields track_youngest_fields)
      have t2: "timed_out ?s2 = timed_out s"
        by (rule timed_out_stderr) (simp add: FD_SET_fields track_youngest_fields)
      have h2: "hdr ?s2 = hdr s" "msg ?s2 = msg s"
        by (simp_all add: FD_SET_sets track_youngest_fields)
      have g2: "get_fds fds ?s2 - {fd ?c} = ?R - {fd ?c}"
        by (simp add: FD_SET_sets get_fds_track_youngest)
      have hv: "handled timeout ?R (drop i ?xs) = handled timeout ?R ?D'"
        using False by (simp add: dr handled_def)
      have hv2: "handled timeout (get_fds fds ?s2) (drop (Suc i) (list_of h ?s2)) =
                 handled timeout ?R ?D'"
        by (simp add: l2' cong [OF g2])
      have "\<exists>s' ds. process_loop fds foreach timeout (h, Suc i) evs ?s2 =
           Inr (s', drop (length (handled timeout (get_fds fds ?s2)
                                     (drop (Suc i) (list_of h ?s2)))) evs) \<and>
           swept h (Suc i) timeout fds ?s2 s' ds"
      proof (rule Suc.IH)
        show "length (list_of h ?s2) - Suc i = n" using Suc.prems(1) by (simp add: l2')
        show "distinct (map fd (drop (Suc i) (list_of h ?s2)))" using d' by (simp add: l2')
        show "\<forall>c\<in>set (drop (Suc i) (list_of h ?s2)). fd c \<noteq> - 1" using nz' by (simp add: l2')
        show "\<forall>(c, e)\<in>set (zip (handled timeout (get_fds fds ?s2)
                                     (drop (Suc i) (list_of h ?s2))) evs).
                stays foreach (hdr ?s2) (msg ?s2) c e"
          using st by (simp add: hv2 hv h2)
        show "length (handled timeout (get_fds fds ?s2) (drop (Suc i) (list_of h ?s2)))
                \<le> length evs"
          using en by (simp add: hv2 hv)
      qed
      then obtain s' ds where
        rec: "process_loop fds foreach timeout (h, Suc i) evs ?s2 =
                Inr (s', drop (length (handled timeout ?R ?D')) evs)"
        and sw: "swept h (Suc i) timeout fds ?s2 s' ds"
        by (auto simp: hv2)
      have "process_loop fds foreach timeout (h, i) evs s =
              Inr (s', drop (length (handled timeout ?R (drop i ?xs))) evs)"
        using n c ni False rec by (simp add: process_loop_skip hv)
      moreover have "swept h i timeout fds s s' ds"
        by (rule swept_keep [OF i refl d l2 _ _ f2 t2 h2 ni' sw]) simp_all
      ultimately show ?thesis by blast
    next
      case rdy: True
      have hv: "handled timeout ?R (drop i ?xs) = ?c # handled timeout ?R ?D'"
        using rdy ni' by (simp add: dr handled_def)
      from en hv obtain e es where ev: "evs = e # es" by (cases evs) simp_all
      have st_c: "stays foreach (hdr s) (msg s) ?c e" using st by (simp add: hv ev)
      have st': "\<forall>(c, e)\<in>set (zip (handled timeout ?R ?D') es). stays foreach (hdr s) (msg s) c e"
        using st by (simp add: hv ev)
      have en': "length (handled timeout ?R ?D') \<le> length es" using en by (simp add: hv ev)
      have "is_node ?p ?s1 \<and> node ?p ?s1 = ?c \<and> hdr ?s1 = hdr s \<and> msg ?s1 = msg s"
        using n c by (simp add: is_node_track_youngest node_track_youngest track_youngest_fields)
      from st_c [unfolded stays_def local_to_def, rule_format, OF this]
      obtain r cl' s2 where h: "foreach ?p e ?s1 = Inr (r, ?p, s2)" and fcl: "fd cl' = fd ?c"
        and ls: "\<And>h'. list_of h' s2 =
                   (if h' = h then (list_of h' ?s1)[i := cl'] else list_of h' ?s1)"
        and fs: "youngest s2 = youngest ?s1" "timed_out s2 = timed_out ?s1"
          "closed s2 = closed ?s1" "rfds s2 = rfds ?s1" "wfds s2 = wfds ?s1"
          "hdr s2 = hdr ?s1" "msg s2 = msg ?s1"
        using n c by (auto simp: node_track_youngest)
      have l2: "list_of h s2 = ?xs[i := cl']" "\<And>h'. h' \<noteq> h \<Longrightarrow> list_of h' s2 = list_of h' s"
        by (simp_all add: ls list_of_track_youngest)
      have n2: "is_node ?p s2" "node ?p s2 = cl'" using i by (simp_all add: is_node_def node_def l2)
      have f2: "closed s2 = closed s" "rfds s2 = rfds s" "wfds s2 = wfds s"
        "youngest s2 = min (youngest s) (last_ts ?c)" "hdr s2 = hdr s" "msg s2 = msg s"
        by (simp_all add: fs track_youngest_fields)
      have t2: "timed_out s2 = timed_out s"
        using timed_out_stderr [of ?s1 s] by (simp add: fs track_youngest_fields)
      show ?thesis
      proof (cases "r = 0")
        case r0: True
        let ?s3 = "s2\<lparr>stderr := stderr s2 @ [Closing_disconnect (fd cl')]\<rparr>"
        have n3: "is_node ?p ?s3" "node ?p ?s3 = cl'"
          using n2 by (simp_all add: is_node_stderr_upd node_stderr_upd)
        from client_free_total [of ?p ?s3] n3 fdc fcl
        obtain s4 where fr: "client_free ?p ?p ?s3 = Inr s4"
          and h4: "hdr s4 = hdr s" "msg s4 = msg s"
          by (auto simp: f2)
        note f = client_free_Inr [OF fr]
        have l4: "list_of h s4 = unlink i ?xs" "\<And>h'. h' \<noteq> h \<Longrightarrow> list_of h' s4 = list_of h' s"
          by (simp_all add: f(9) list_of_stderr_upd l2 unlink_update)
        have f4: "closed s4 = closed s @ [fd ?c]" "rfds s4 = rfds s - {fd ?c}"
          "wfds s4 = wfds s - {fd ?c}" "youngest s4 = min (youngest s) (last_ts ?c)"
          unfolding f(3,5,7,8) n3(2) by (simp_all add: f2 fcl)
        have t4: "timed_out s4 = timed_out s @ (if last_ts ?c \<le> timeout then [fd ?c] else [])"
          using timed_out_stderr [OF f(4)] timed_out_log(2) [of s2 "fd cl'"] ni
          by (simp add: t2)
        have d4: "drop i (list_of h s4) = ?D'" using i by (simp add: l4 drop_unlink)
        have g4: "get_fds fds s4 - {fd ?c} = ?R - {fd ?c}" by (auto simp: get_fds_cases f4)
        have hv4: "handled timeout (get_fds fds s4) (drop i (list_of h s4)) =
                   handled timeout ?R ?D'"
          by (simp add: d4 cong [OF g4])
        have "\<exists>s' ds. process_loop fds foreach timeout (h, i) es s4 =
           Inr (s', drop (length (handled timeout (get_fds fds s4) (drop i (list_of h s4)))) es) \<and>
           swept h i timeout fds s4 s' ds"
        proof (rule Suc.IH)
          show "length (list_of h s4) - i = n" using Suc.prems(1) i by (simp add: l4 length_unlink)
          show "distinct (map fd (drop i (list_of h s4)))" using d' by (simp add: d4)
          show "\<forall>c\<in>set (drop i (list_of h s4)). fd c \<noteq> - 1" using nz' by (simp add: d4)
          show "\<forall>(c, e)\<in>set (zip (handled timeout (get_fds fds s4) (drop i (list_of h s4))) es).
                  stays foreach (hdr s4) (msg s4) c e"
            using st' by (simp add: hv4 h4)
          show "length (handled timeout (get_fds fds s4) (drop i (list_of h s4))) \<le> length es"
            using en' by (simp add: hv4)
        qed
        then obtain s' ds where
          rec: "process_loop fds foreach timeout (h, i) es s4 =
                  Inr (s', drop (length (handled timeout ?R ?D')) es)"
          and sw: "swept h i timeout fds s4 s' ds"
          by (auto simp: hv4)
        have "process_loop fds foreach timeout (h, i) evs s =
                Inr (s', drop (length (handled timeout ?R (drop i ?xs))) evs)"
          using n c ni rdy h r0 fr rec n2 by (simp add: process_loop_ready hv ev)
        moreover have "swept h i timeout fds s s' (fd ?c # ds)"
          by (rule swept_evict [OF i refl d l4 f4 t4 h4 disjI2 [OF rdy] sw])
        ultimately show ?thesis by blast
      next
        case r1: False
        let ?s3 = "FD_SET (fd cl') fds s2"
        have k: "fd ?c \<notin> ?R \<longrightarrow> cl' = ?c" using rdy by simp
        have l3: "list_of h ?s3 = ?xs[i := cl']" "\<And>h'. h' \<noteq> h \<Longrightarrow> list_of h' ?s3 = list_of h' s"
          by (simp_all add: list_of_FD_SET l2)
        have f3: "closed ?s3 = closed s" "rfds ?s3 \<subseteq> insert (fd ?c) (rfds s)"
          "wfds ?s3 \<subseteq> insert (fd ?c) (wfds s)" "youngest ?s3 = min (youngest s) (last_ts ?c)"
          using FD_SET_sets(1,2) [of "fd cl'" fds s2]
          by (simp_all add: FD_SET_fields f2 fcl)
        have t3: "timed_out ?s3 = timed_out s"
          using timed_out_stderr [of ?s3 s2] by (simp add: FD_SET_fields t2)
        have h3: "hdr ?s3 = hdr s" "msg ?s3 = msg s" by (simp_all add: FD_SET_sets f2)
        have gs2: "get_fds fds s2 = ?R" by (simp add: get_fds_cases f2)
        have g3: "get_fds fds ?s3 - {fd ?c} = ?R - {fd ?c}"
          by (simp add: FD_SET_sets(3) fcl gs2)
        have d3: "drop (Suc i) (list_of h ?s3) = ?D'" by (simp add: l3)
        have hv3: "handled timeout (get_fds fds ?s3) (drop (Suc i) (list_of h ?s3)) =
                   handled timeout ?R ?D'"
          by (simp add: d3 cong [OF g3])
        have "\<exists>s' ds. process_loop fds foreach timeout (h, Suc i) es ?s3 =
           Inr (s', drop (length (handled timeout (get_fds fds ?s3)
                                     (drop (Suc i) (list_of h ?s3)))) es) \<and>
           swept h (Suc i) timeout fds ?s3 s' ds"
        proof (rule Suc.IH)
          show "length (list_of h ?s3) - Suc i = n" using Suc.prems(1) by (simp add: l3)
          show "distinct (map fd (drop (Suc i) (list_of h ?s3)))" using d' by (simp add: d3)
          show "\<forall>c\<in>set (drop (Suc i) (list_of h ?s3)). fd c \<noteq> - 1" using nz' by (simp add: d3)
          show "\<forall>(c, e)\<in>set (zip (handled timeout (get_fds fds ?s3)
                                       (drop (Suc i) (list_of h ?s3))) es).
                  stays foreach (hdr ?s3) (msg ?s3) c e"
            using st' by (simp add: hv3 h3)
          show "length (handled timeout (get_fds fds ?s3) (drop (Suc i) (list_of h ?s3)))
                  \<le> length es"
            using en' by (simp add: hv3)
        qed
        then obtain s' ds where
          rec: "process_loop fds foreach timeout (h, Suc i) es ?s3 =
                  Inr (s', drop (length (handled timeout ?R ?D')) es)"
          and sw: "swept h (Suc i) timeout fds ?s3 s' ds"
          by (auto simp: hv3)
        have "process_loop fds foreach timeout (h, i) evs s =
                Inr (s', drop (length (handled timeout ?R (drop i ?xs))) evs)"
          using n c ni rdy h r1 rec n2 by (simp add: process_loop_ready hv ev)
        moreover have "swept h i timeout fds s s' ds"
          by (rule swept_keep [OF i refl d l3 fcl k f3 t3 h3 ni' sw])
        ultimately show ?thesis by blast
      qed
    qed
  qed
qed

section \<open>Handlers that leave the node in place\<close>

lemma local_to_log:
  "\<forall>d. l \<noteq> Closing_timeout d \<Longrightarrow> local_to p s (s\<lparr>stderr := stderr s @ [l]\<rparr>)"
  unfolding local_to_def
  by (cases l) (auto simp: timed_out_def list_of_stderr_upd intro!: exI [of _ "node p s"] simp: node_def)

lemma local_to_upd:
  assumes "fd (f (node p s)) = fd (node p s)"
  shows "local_to p s (upd p f s)"
  unfolding local_to_def
  using assms by (auto simp: upd_fields timed_out_def list_of_upd intro!: exI [of _ "f (node p s)"])

lemma local_to_wire: "local_to p s (s\<lparr>wire := w\<rparr>)"
  unfolding local_to_def
  by (auto simp: timed_out_def list_of_def node_def intro!: exI [of _ "node p s"] split: head.splits)

lemma local_to_trans:
  assumes "is_node p s" "local_to p s s1" "local_to p s1 s2"
  shows "local_to p s s2"
proof -
  from assms(2) obtain a where a: "fd a = fd (node p s)"
    "\<And>h. list_of h s1 = (if h = fst p then (list_of h s)[snd p := a] else list_of h s)"
    unfolding local_to_def by blast
  from assms(3) obtain b where b: "fd b = fd (node p s1)"
    "\<And>h. list_of h s2 = (if h = fst p then (list_of h s1)[snd p := b] else list_of h s1)"
    unfolding local_to_def by blast
  have "node p s1 = a" using assms(1) by (simp add: node_def is_node_def a(2))
  then have "fd b = fd (node p s)" using a(1) b(1) by simp
  moreover have "\<forall>h. list_of h s2 = (if h = fst p then (list_of h s)[snd p := b] else list_of h s)"
    by (simp add: a(2) b(2))
  ultimately show ?thesis
    using assms(2,3) unfolding local_to_def by auto
qed

lemma stays_client_read:
  assumes "while_len (state cl) (bytes e) \<noteq> Do_get"
  shows "stays client_read H M cl e"
  unfolding stays_def
proof (intro allI impI, elim conjE)
  fix p s
  assume n: "is_node p s" and c: "node p s = cl"
  have two: "local_to p s (upd p (\<lambda>c. c\<lparr>state := st\<rparr>) (upd p (\<lambda>c. c\<lparr>last_ts := t\<rparr>) s))" for st t
  proof (rule local_to_trans [OF n])
    show "local_to p s (upd p (\<lambda>c. c\<lparr>last_ts := t\<rparr>) s)" by (rule local_to_upd) simp
    show "local_to p (upd p (\<lambda>c. c\<lparr>last_ts := t\<rparr>) s)
            (upd p (\<lambda>c. c\<lparr>state := st\<rparr>) (upd p (\<lambda>c. c\<lparr>last_ts := t\<rparr>) s))"
      by (rule local_to_upd) simp
  qed
  obtain r t where e: "e = (r, t)" by (cases e)
  show "\<exists>r s'. client_read p e s = Inr (r, p, s') \<and> local_to p s s'"
  proof (cases r)
    case None
    then show ?thesis by (simp add: e client_read_def local_to_log)
  next
    case (Some buf)
    show ?thesis
    proof (cases "buf = []")
      case True
      then show ?thesis using Some by (simp add: e client_read_def local_to_log)
    next
      case False
      have "while_len (state (node p s)) buf \<noteq> Do_get"
        using assms c by (simp add: e Some bytes_def)
      then show ?thesis
        using two
        by (cases "while_len (state (node p s)) buf")
          (simp_all add: e Some client_read_bytes [OF False])
    qed
  qed
qed

lemma client_write_step:
  assumes "state (node p s) = 0 \<or> state (node p s) = 1"
    and "buf = (if state (node p s) = 0 then hdr s else msg s)"
    and "write_ofs (node p s) \<le> length buf" "length buf < 2 ^ 32"
    and "fd (node p s) \<noteq> - 1" "at_most_asked e"
    and "res = fst e (int (length buf) - int (write_ofs (node p s)))"
  shows "client_write p e s =
           (if res < 0
            then Inr (0, p, s\<lparr>stderr := stderr s @ [Closing_errno (fd (node p s))]\<rparr>)
            else Inr (1, p,
              upd p (\<lambda>c. (if write_ofs (node p s) + nat res = length buf
                            then c\<lparr>state := state c + 1, write_ofs := 0\<rparr>
                            else c\<lparr>write_ofs := write_ofs (node p s) + nat res\<rparr>)\<lparr>last_ts := snd e\<rparr>)
                (s\<lparr>wire := wire s @
                    [(fd (node p s), take (nat res) (drop (write_ofs (node p s)) buf))]\<rparr>)))"
proof (cases "res < 0")
  case True
  then show ?thesis
    using assms(1,5) by (auto simp: client_write_def Let_def assms(2,7) [symmetric])
next
  case False
  let ?n = "int (length buf) - int (write_ofs (node p s))"
  have n: "0 \<le> ?n" using assms(3) by simp
  with assms(6) have r: "res \<le> ?n" by (auto simp: at_most_asked_def assms(7))
  have r0: "0 \<le> res" using False by simp
  have le: "write_ofs (node p s) + nat res \<le> length buf" using r r0 by linarith
  have m: "(write_ofs (node p s) + nat res) mod 2 ^ 32 = write_ofs (node p s) + nat res"
    using le assms(4) by simp
  have iff: "(int (write_ofs (node p s)) + res = int (length buf)) =
             (write_ofs (node p s) + nat res = length buf)"
    using r0 by linarith
  show ?thesis
    using assms(1,5) r0 le m False
    by (auto simp: client_write_def Let_def iff assms(2,7) [symmetric])
qed

lemma stays_client_write:
  assumes "fd cl \<noteq> - 1" "at_most_asked e" "length H < 2 ^ 32" "length M < 2 ^ 32"
    and "state cl = 0 \<longrightarrow> write_ofs cl \<le> length H"
    and "state cl = 1 \<longrightarrow> write_ofs cl \<le> length M"
  shows "stays client_write H M cl e"
  unfolding stays_def
proof (intro allI impI, elim conjE)
  fix p s
  assume n: "is_node p s" and c: "node p s = cl" and hm: "hdr s = H" "msg s = M"
  show "\<exists>r s'. client_write p e s = Inr (r, p, s') \<and> local_to p s s'"
  proof (cases "state cl = 0 \<or> state cl = 1")
    case False
    then show ?thesis by (simp add: client_write_def c local_to_log)
  next
    case True
    define buf where "buf = (if state (node p s) = 0 then hdr s else msg s)"
    define res where "res = fst e (int (length buf) - int (write_ofs (node p s)))"
    have le: "write_ofs (node p s) \<le> length buf" and lt: "length buf < 2 ^ 32"
      using assms(3-6) True by (auto simp: buf_def c hm)
    have loc: "local_to p s (upd p f (s\<lparr>wire := w\<rparr>))"
      if "\<And>x. fd (f x) = fd x" for f w
    proof (rule local_to_trans [OF n local_to_wire])
      show "local_to p (s\<lparr>wire := w\<rparr>) (upd p f (s\<lparr>wire := w\<rparr>))"
        by (rule local_to_upd) (simp add: that)
    qed
    have st: "state (node p s) = 0 \<or> state (node p s) = 1" using True c by simp
    have fdn: "fd (node p s) \<noteq> - 1" using assms(1) c by simp
    note cw = client_write_step [OF st buf_def le lt fdn assms(2) res_def]
    show ?thesis
    proof (cases "res < 0")
      case True
      then show ?thesis unfolding cw by (simp add: local_to_log)
    next
      case False
      then show ?thesis
        unfolding cw by simp (rule loc, simp)
    qed
  qed
qed

lemma Min_insert_Min:
  "finite R \<Longrightarrow> finite W \<Longrightarrow> Min (insert (Min (insert a R)) W) = Min (insert a (R \<union> W))"
proof (cases "W = {}")
  case True
  then show ?thesis by simp
next
  case False
  assume "finite R" "finite W"
  then have "Min (insert a R \<union> W) = min (Min (insert a R)) (Min W)"
    using False by (intro Min_Un) simp_all
  then show ?thesis using False \<open>finite W\<close> by simp
qed

lemma idle_iff: "(last_ts c \<le> now - HTTP_TIMEOUT) = (HTTP_TIMEOUT \<le> now - last_ts c)"
  by linarith

lemma process_readers_sweep:
  assumes "distinct (map fd (reader_head s))" "\<forall>c\<in>set (reader_head s). fd c \<noteq> - 1"
    and "\<forall>(c, e)\<in>set (zip (handled (now - HTTP_TIMEOUT) (rfds s) (reader_head s)) evs).
           while_len (state c) (bytes e) \<noteq> Do_get"
    and "length (handled (now - HTTP_TIMEOUT) (rfds s) (reader_head s)) \<le> length evs"
  shows "\<exists>s' ds. process_readers now evs s =
           Inr (s', drop (length (handled (now - HTTP_TIMEOUT) (rfds s) (reader_head s))) evs) \<and>
           swept Reader_head 0 (now - HTTP_TIMEOUT) Rfds s s' ds"
proof -
  have "\<exists>s' ds. process_loop Rfds client_read (now - HTTP_TIMEOUT) (Reader_head, 0) evs s =
           Inr (s', drop (length (handled (now - HTTP_TIMEOUT) (get_fds Rfds s)
                                    (drop 0 (list_of Reader_head s)))) evs) \<and>
           swept Reader_head 0 (now - HTTP_TIMEOUT) Rfds s s' ds"
  proof (rule process_loop_sweep [OF refl])
    show "distinct (map fd (drop 0 (list_of Reader_head s)))"
      using assms(1) by (simp add: list_of_def)
    show "\<forall>c\<in>set (drop 0 (list_of Reader_head s)). fd c \<noteq> - 1"
      using assms(2) by (simp add: list_of_def)
    show "\<forall>(c, e)\<in>set (zip (handled (now - HTTP_TIMEOUT) (get_fds Rfds s)
                                (drop 0 (list_of Reader_head s))) evs).
            stays client_read (hdr s) (msg s) c e"
      using assms(3) by (auto simp: list_of_def get_fds_def intro: stays_client_read)
    show "length (handled (now - HTTP_TIMEOUT) (get_fds Rfds s) (drop 0 (list_of Reader_head s)))
            \<le> length evs"
      using assms(4) by (simp add: list_of_def get_fds_def)
  qed
  then show ?thesis
    by (simp add: process_readers_def process_generic_def list_of_def get_fds_def)
qed

lemma process_writers_sweep:
  assumes "distinct (map fd (writer_head s))"
    and "\<forall>c\<in>set (writer_head s). fd c \<noteq> - 1 \<and>
           (state c = 0 \<longrightarrow> write_ofs c \<le> length (hdr s)) \<and>
           (state c = 1 \<longrightarrow> write_ofs c \<le> length (msg s))"
    and "length (hdr s) < 2 ^ 32" "length (msg s) < 2 ^ 32"
    and "\<forall>e\<in>set evs. at_most_asked e"
    and "length (handled (now - HTTP_TIMEOUT) (wfds s) (writer_head s)) \<le> length evs"
  shows "\<exists>s' ds. process_writers now evs s =
           Inr (s', drop (length (handled (now - HTTP_TIMEOUT) (wfds s) (writer_head s))) evs) \<and>
           swept Writer_head 0 (now - HTTP_TIMEOUT) Wfds s s' ds"
proof -
  have "\<exists>s' ds. process_loop Wfds client_write (now - HTTP_TIMEOUT) (Writer_head, 0) evs s =
           Inr (s', drop (length (handled (now - HTTP_TIMEOUT) (get_fds Wfds s)
                                    (drop 0 (list_of Writer_head s)))) evs) \<and>
           swept Writer_head 0 (now - HTTP_TIMEOUT) Wfds s s' ds"
  proof (rule process_loop_sweep [OF refl])
    show "distinct (map fd (drop 0 (list_of Writer_head s)))"
      using assms(1) by (simp add: list_of_def)
    show "\<forall>c\<in>set (drop 0 (list_of Writer_head s)). fd c \<noteq> - 1"
      using assms(2) by (simp add: list_of_def)
    show "\<forall>(c, e)\<in>set (zip (handled (now - HTTP_TIMEOUT) (get_fds Wfds s)
                                (drop 0 (list_of Writer_head s))) evs).
            stays client_write (hdr s) (msg s) c e"
    proof (clarify)
      fix c e
      assume "(c, e) \<in> set (zip (handled (now - HTTP_TIMEOUT) (get_fds Wfds s)
                                (drop 0 (list_of Writer_head s))) evs)"
      then have "c \<in> set (writer_head s)" "e \<in> set evs"
        using handled_subset [of "now - HTTP_TIMEOUT" "wfds s" "writer_head s"]
        by (auto simp: list_of_def get_fds_def dest: set_zip_leftD set_zip_rightD)
      then show "stays client_write (hdr s) (msg s) c e"
        using assms(2-5) by (intro stays_client_write) auto
    qed
    show "length (handled (now - HTTP_TIMEOUT) (get_fds Wfds s) (drop 0 (list_of Writer_head s)))
            \<le> length evs"
      using assms(6) by (simp add: list_of_def get_fds_def)
  qed
  then show ?thesis
    by (simp add: process_writers_def process_generic_def list_of_def get_fds_def)
qed

lemma swept_eviction:
  assumes sw: "swept h 0 (now - HTTP_TIMEOUT) fds s s' ds"
    and d: "distinct (map fd (list_of h s))"
  shows "closed s' = closed s @ ds \<and>
         timed_out s' = timed_out s @
           map fd (filter (\<lambda>c. HTTP_TIMEOUT \<le> now - last_ts c) (list_of h s)) \<and>
         fd ` set (list_of h s') = fd ` set (list_of h s) - set ds \<and>
         (\<forall>c\<in>set (list_of h s).
            if HTTP_TIMEOUT \<le> now - last_ts c
            then fd c \<in> set ds \<and> fd c \<notin> fd ` set (list_of h s') \<and>
                 fd c \<notin> rfds s' \<and> fd c \<notin> wfds s'
            else fd c \<notin> set (map fd (filter (\<lambda>c. HTTP_TIMEOUT \<le> now - last_ts c) (list_of h s))) \<and>
                 (fd c \<notin> get_fds fds s \<longrightarrow> c \<in> set (list_of h s') \<and> fd c \<notin> set ds))"
proof -
  note s = sw [unfolded swept_def drop_0 idle_iff]
  have inj: "inj_on fd (set (list_of h s))" using d by (simp add: distinct_map)
  have 1: "closed s' = closed s @ ds" using s by simp
  have 2: "timed_out s' = timed_out s @
           map fd (filter (\<lambda>c. HTTP_TIMEOUT \<le> now - last_ts c) (list_of h s))"
    using s by simp
  have 3: "fd ` set (list_of h s') = fd ` set (list_of h s) - set ds" using s by simp
  have 4: "\<forall>c\<in>set (list_of h s).
            if HTTP_TIMEOUT \<le> now - last_ts c
            then fd c \<in> set ds \<and> fd c \<notin> fd ` set (list_of h s') \<and>
                 fd c \<notin> rfds s' \<and> fd c \<notin> wfds s'
            else fd c \<notin> set (map fd (filter (\<lambda>c. HTTP_TIMEOUT \<le> now - last_ts c) (list_of h s))) \<and>
                 (fd c \<notin> get_fds fds s \<longrightarrow> c \<in> set (list_of h s') \<and> fd c \<notin> set ds)"
  proof (rule ballI)
    fix c assume c: "c \<in> set (list_of h s)"
    show "if HTTP_TIMEOUT \<le> now - last_ts c
            then fd c \<in> set ds \<and> fd c \<notin> fd ` set (list_of h s') \<and>
                 fd c \<notin> rfds s' \<and> fd c \<notin> wfds s'
            else fd c \<notin> set (map fd (filter (\<lambda>c. HTTP_TIMEOUT \<le> now - last_ts c) (list_of h s))) \<and>
                 (fd c \<notin> get_fds fds s \<longrightarrow> c \<in> set (list_of h s') \<and> fd c \<notin> set ds)"
    proof (cases "HTTP_TIMEOUT \<le> now - last_ts c")
      case True
      then have "fd c \<in> set ds" using s c by blast
      moreover have "set ds \<inter> rfds s' = {}" "set ds \<inter> wfds s' = {}" using s by simp_all
      ultimately show ?thesis using True 3 by auto
    next
      case False
      have a: "fd c \<notin> set (map fd (filter (\<lambda>c. HTTP_TIMEOUT \<le> now - last_ts c) (list_of h s)))"
      proof
        assume "fd c \<in> set (map fd (filter (\<lambda>c. HTTP_TIMEOUT \<le> now - last_ts c) (list_of h s)))"
        then obtain x where x: "x \<in> set (list_of h s)" "HTTP_TIMEOUT \<le> now - last_ts x" "fd x = fd c"
          by auto
        then have "x = c" using inj c by (auto dest: inj_onD)
        then show False using x False by simp
      qed
      have b: "c \<in> set (list_of h s') \<and> fd c \<notin> set ds" if "fd c \<notin> get_fds fds s"
      proof -
        have "c \<in> set (list_of h s')" using s c False that by auto
        then show ?thesis using 3 by auto
      qed
      show ?thesis using False a b by simp
    qed
  qed
  show ?thesis using 1 2 3 4 by blast
qed

lemma select_tv_floor:
  assumes "finite L" "y = Min (insert INT_MAX L)"
  shows "select_tv y now =
           (if \<forall>t\<in>L. INT_MAX \<le> t then None
            else Some (max 0 (Min L + HTTP_TIMEOUT - now)))"
proof (cases "\<forall>t\<in>L. INT_MAX \<le> t")
  case True
  then have "Min (insert INT_MAX L) = INT_MAX"
    using assms(1) by (intro Min_eqI) auto
  then show ?thesis using True assms(2) by (simp add: select_tv_def)
next
  case False
  then obtain t where t: "t \<in> L" "t < INT_MAX" by auto
  then have ne: "L \<noteq> {}" by auto
  have "Min L \<le> t" using assms(1) t by simp
  then have lt: "Min L < INT_MAX" using t by simp
  have "Min (insert INT_MAX L) = min INT_MAX (Min L)" using assms(1) ne by simp
  then have "y = Min L" using lt assms(2) by simp
  then show ?thesis using False lt by (auto simp: select_tv_def Let_def max_def)
qed

section \<open>Idleness and the activity floor\<close>

text \<open>
  C4, amended. In a traversal of the writer list, and in a traversal of the reader list
  in which no read completes a request, the records evicted for idleness are those
  whose idle time \<open>now - last\<close> is at least the threshold. The traversal returns. The
  timeouts it logs are those of exactly these records, in list order, and each of them
  is closed, is no longer in the list and is in neither descriptor set afterwards. A
  record whose idle time is below the threshold is not logged as timed out; it is still
  in the list, unchanged and open, when its descriptor is not in the set. The records
  left in the list are those whose descriptor was not closed.

  The handler is called once for each record of \<open>handled \<dots>\<close>, none of which is timed out,
  and for no other: the traversal leaves of the script what these calls have not taken.
  The reads of a traversal of the readers are thus those of \<open>zip (handled \<dots>) revs\<close>.
  The descriptors of a list are distinct and none is \<open>-1\<close>, as \<^verbatim>\<open>accept\<close> gives them;
  the script has an entry for each call of the handler; for the writers, each offset is
  inside its buffer, the buffers are shorter than \<open>2 ^ 32\<close> bytes and the transport
  accepts no more than it is asked for.
\<close>

theorem idle_eviction_at_threshold:
  "(distinct (map fd (writer_head s)) \<and>
    (\<forall>c\<in>set (writer_head s). fd c \<noteq> - 1 \<and>
       (state c = 0 \<longrightarrow> write_ofs c \<le> length (hdr s)) \<and>
       (state c = 1 \<longrightarrow> write_ofs c \<le> length (msg s))) \<and>
    length (hdr s) < 2 ^ 32 \<and> length (msg s) < 2 ^ 32 \<and>
    (\<forall>e\<in>set wevs. at_most_asked e) \<and>
    length (handled (now - HTTP_TIMEOUT) (wfds s) (writer_head s)) \<le> length wevs \<longrightarrow>
    (\<exists>s' ds.
       process_writers now wevs s =
         Inr (s', drop (length (handled (now - HTTP_TIMEOUT) (wfds s) (writer_head s))) wevs) \<and>
       closed s' = closed s @ ds \<and>
       timed_out s' = timed_out s @
         map fd (filter (\<lambda>c. HTTP_TIMEOUT \<le> now - last_ts c) (writer_head s)) \<and>
       fd ` set (writer_head s') = fd ` set (writer_head s) - set ds \<and>
       (\<forall>c\<in>set (writer_head s).
          if HTTP_TIMEOUT \<le> now - last_ts c
          then fd c \<in> set ds \<and> fd c \<notin> fd ` set (writer_head s') \<and>
               fd c \<notin> rfds s' \<and> fd c \<notin> wfds s'
          else fd c \<notin> set (map fd (filter (\<lambda>c. HTTP_TIMEOUT \<le> now - last_ts c) (writer_head s))) \<and>
               (fd c \<notin> wfds s \<longrightarrow> c \<in> set (writer_head s') \<and> fd c \<notin> set ds)))) \<and>
   (distinct (map fd (reader_head s)) \<and>
    (\<forall>c\<in>set (reader_head s). fd c \<noteq> - 1) \<and>
    (\<forall>(c, e)\<in>set (zip (handled (now - HTTP_TIMEOUT) (rfds s) (reader_head s)) revs).
       while_len (state c) (bytes e) \<noteq> Do_get) \<and>
    length (handled (now - HTTP_TIMEOUT) (rfds s) (reader_head s)) \<le> length revs \<longrightarrow>
    (\<exists>s' ds.
       process_readers now revs s =
         Inr (s', drop (length (handled (now - HTTP_TIMEOUT) (rfds s) (reader_head s))) revs) \<and>
       closed s' = closed s @ ds \<and>
       timed_out s' = timed_out s @
         map fd (filter (\<lambda>c. HTTP_TIMEOUT \<le> now - last_ts c) (reader_head s)) \<and>
       fd ` set (reader_head s') = fd ` set (reader_head s) - set ds \<and>
       (\<forall>c\<in>set (reader_head s).
          if HTTP_TIMEOUT \<le> now - last_ts c
          then fd c \<in> set ds \<and> fd c \<notin> fd ` set (reader_head s') \<and>
               fd c \<notin> rfds s' \<and> fd c \<notin> wfds s'
          else fd c \<notin> set (map fd (filter (\<lambda>c. HTTP_TIMEOUT \<le> now - last_ts c) (reader_head s))) \<and>
               (fd c \<notin> rfds s \<longrightarrow> c \<in> set (reader_head s') \<and> fd c \<notin> set ds))))"
proof (rule conjI, goal_cases)
  case 1
  show ?case
  proof (rule impI, elim conjE)
    assume a: "distinct (map fd (writer_head s))"
      "\<forall>c\<in>set (writer_head s). fd c \<noteq> - 1 \<and>
         (state c = 0 \<longrightarrow> write_ofs c \<le> length (hdr s)) \<and>
         (state c = 1 \<longrightarrow> write_ofs c \<le> length (msg s))"
      "length (hdr s) < 2 ^ 32" "length (msg s) < 2 ^ 32"
      "\<forall>e\<in>set wevs. at_most_asked e"
      "length (handled (now - HTTP_TIMEOUT) (wfds s) (writer_head s)) \<le> length wevs"
    from process_writers_sweep [OF a] obtain s' ds where
      r: "process_writers now wevs s =
            Inr (s', drop (length (handled (now - HTTP_TIMEOUT) (wfds s) (writer_head s))) wevs)"
      and sw: "swept Writer_head 0 (now - HTTP_TIMEOUT) Wfds s s' ds"
      by blast
    have d: "distinct (map fd (list_of Writer_head s))" using a(1) by (simp add: list_of_def)
    from swept_eviction [OF sw d] r
    show "\<exists>s' ds.
       process_writers now wevs s =
         Inr (s', drop (length (handled (now - HTTP_TIMEOUT) (wfds s) (writer_head s))) wevs) \<and>
       closed s' = closed s @ ds \<and>
       timed_out s' = timed_out s @
         map fd (filter (\<lambda>c. HTTP_TIMEOUT \<le> now - last_ts c) (writer_head s)) \<and>
       fd ` set (writer_head s') = fd ` set (writer_head s) - set ds \<and>
       (\<forall>c\<in>set (writer_head s).
          if HTTP_TIMEOUT \<le> now - last_ts c
          then fd c \<in> set ds \<and> fd c \<notin> fd ` set (writer_head s') \<and>
               fd c \<notin> rfds s' \<and> fd c \<notin> wfds s'
          else fd c \<notin> set (map fd (filter (\<lambda>c. HTTP_TIMEOUT \<le> now - last_ts c) (writer_head s))) \<and>
               (fd c \<notin> wfds s \<longrightarrow> c \<in> set (writer_head s') \<and> fd c \<notin> set ds))"
      unfolding list_of_def get_fds_def by (simp only: head.case fdsel.case) blast
  qed
next
  case 2
  show ?case
  proof (rule impI, elim conjE)
    assume a: "distinct (map fd (reader_head s))"
      "\<forall>c\<in>set (reader_head s). fd c \<noteq> - 1"
      "\<forall>(c, e)\<in>set (zip (handled (now - HTTP_TIMEOUT) (rfds s) (reader_head s)) revs).
         while_len (state c) (bytes e) \<noteq> Do_get"
      "length (handled (now - HTTP_TIMEOUT) (rfds s) (reader_head s)) \<le> length revs"
    from process_readers_sweep [OF a] obtain s' ds where
      r: "process_readers now revs s =
            Inr (s', drop (length (handled (now - HTTP_TIMEOUT) (rfds s) (reader_head s))) revs)"
      and sw: "swept Reader_head 0 (now - HTTP_TIMEOUT) Rfds s s' ds"
      by blast
    have d: "distinct (map fd (list_of Reader_head s))" using a(1) by (simp add: list_of_def)
    from swept_eviction [OF sw d] r
    show "\<exists>s' ds.
       process_readers now revs s =
         Inr (s', drop (length (handled (now - HTTP_TIMEOUT) (rfds s) (reader_head s))) revs) \<and>
       closed s' = closed s @ ds \<and>
       timed_out s' = timed_out s @
         map fd (filter (\<lambda>c. HTTP_TIMEOUT \<le> now - last_ts c) (reader_head s)) \<and>
       fd ` set (reader_head s') = fd ` set (reader_head s) - set ds \<and>
       (\<forall>c\<in>set (reader_head s).
          if HTTP_TIMEOUT \<le> now - last_ts c
          then fd c \<in> set ds \<and> fd c \<notin> fd ` set (reader_head s') \<and>
               fd c \<notin> rfds s' \<and> fd c \<notin> wfds s'
          else fd c \<notin> set (map fd (filter (\<lambda>c. HTTP_TIMEOUT \<le> now - last_ts c) (reader_head s))) \<and>
               (fd c \<notin> rfds s \<longrightarrow> c \<in> set (reader_head s') \<and> fd c \<notin> set ds))"
      unfolding list_of_def get_fds_def by (simp only: head.case fdsel.case) blast
  qed
qed

text \<open>
  C5, as stated, fails: after an iteration that evicts the only connection, no
  connection is live, but \<^verbatim>\<open>youngest\<close> is the evicted record's \<^verbatim>\<open>last\<close> and the next
  wait is 0 seconds, not indefinite.
\<close>

theorem evicted_record_sets_the_floor:
  "main_process 105 [] 105 [] one_reader =
     Inr (one_reader\<lparr>reader_head := [], youngest := 100, rfds := {3}, closed := [4],
            stderr := [New_client 4, Closing_timeout 4]\<rparr>) \<and>
   select_tv 100 105 = Some 0"
  by (simp add: main_process_def process_writers_def process_readers_def process_generic_def
      process_loop.simps one_reader_def
      is_node_def node_def list_of_def HTTP_TIMEOUT_def INT_MAX_def track_youngest_def
      client_free_def Let_def set_list_def unlink_def insert_Diff_if select_tv_def)

text \<open>
  C5, amended. The traversals of an iteration in which no read completes a request
  return, and after them \<^verbatim>\<open>youngest\<close> is the least of \<^verbatim>\<open>INT_MAX\<close> and the \<^verbatim>\<open>last\<close> that
  each record of the two lists had when the traversals started, evicted records
  included. The next wait has no limit exactly when no record of the two lists had a
  \<^verbatim>\<open>last\<close> below \<^verbatim>\<open>INT_MAX\<close>, in particular when there was no record; otherwise it is
  the least \<^verbatim>\<open>last\<close> of these records plus \<^verbatim>\<open>HTTP_TIMEOUT\<close> minus \<open>now\<close>, or 0 if that
  is negative. The conditions on the lists and the scripts are those of the traversals
  above, with the descriptors of the two lists distinct.
\<close>

theorem activity_floor_and_wait:
  assumes "distinct (map fd (reader_head s @ writer_head s))"
    and "\<forall>c\<in>set (reader_head s @ writer_head s). fd c \<noteq> - 1"
    and "\<forall>(c, e)\<in>set (zip (handled (now_r - HTTP_TIMEOUT) (rfds s) (reader_head s)) revs).
           while_len (state c) (bytes e) \<noteq> Do_get"
    and "length (handled (now_r - HTTP_TIMEOUT) (rfds s) (reader_head s)) \<le> length revs"
    and "\<forall>c\<in>set (writer_head s).
           (state c = 0 \<longrightarrow> write_ofs c \<le> length (hdr s)) \<and>
           (state c = 1 \<longrightarrow> write_ofs c \<le> length (msg s))"
    and "length (hdr s) < 2 ^ 32" "length (msg s) < 2 ^ 32"
    and "\<forall>e\<in>set wevs. at_most_asked e"
    and "length (handled (now_w - HTTP_TIMEOUT) (wfds s) (writer_head s)) \<le> length wevs"
  shows "\<exists>s'. main_process now_r revs now_w wevs s = Inr s' \<and>
           youngest s' =
             Min (insert INT_MAX (last_ts ` (set (reader_head s) \<union> set (writer_head s)))) \<and>
           select_tv (youngest s') now =
             (if \<forall>c\<in>set (reader_head s) \<union> set (writer_head s). INT_MAX \<le> last_ts c then None
              else Some (max 0 (Min (last_ts ` (set (reader_head s) \<union> set (writer_head s))) +
                                  HTTP_TIMEOUT - now)))"
proof -
  let ?s0 = "s\<lparr>youngest := INT_MAX\<rparr>"
  let ?rs = "reader_head s" and ?ws = "writer_head s"
  have "\<exists>s' ds. process_readers now_r revs ?s0 =
           Inr (s', drop (length (handled (now_r - HTTP_TIMEOUT) (rfds ?s0) (reader_head ?s0))) revs) \<and>
           swept Reader_head 0 (now_r - HTTP_TIMEOUT) Rfds ?s0 s' ds"
    using assms(1-4) by (intro process_readers_sweep) simp_all
  then obtain s1 r1 ds1 where r: "process_readers now_r revs ?s0 = Inr (s1, r1)"
    and sw1: "swept Reader_head 0 (now_r - HTTP_TIMEOUT) Rfds ?s0 s1 ds1"
    by blast
  note s1 = sw1 [unfolded swept_def drop_0]
  have w1: "writer_head s1 = ?ws"
    using s1 [THEN conjunct2, THEN conjunct2, THEN conjunct1, rule_format, of Writer_head]
    by (simp add: list_of_def)
  have y1: "youngest s1 = Min (insert INT_MAX (last_ts ` set ?rs))"
    using s1 by (simp add: list_of_def)
  have h1: "hdr s1 = hdr s" "msg s1 = msg s" using s1 by simp_all
  have wf: "wfds s1 \<subseteq> wfds s \<union> fd ` set ?rs" using s1 by (simp add: list_of_def)
  have dis: "fd ` set ?rs \<inter> fd ` set ?ws = {}" using assms(1) by auto
  have "\<forall>c\<in>set ?ws. fd c \<in> wfds s1 \<longrightarrow> fd c \<in> wfds s"
    using wf dis by blast
  from handled_mono [OF this, of "now_w - HTTP_TIMEOUT"] assms(9)
  have en: "length (handled (now_w - HTTP_TIMEOUT) (wfds s1) (writer_head s1)) \<le> length wevs"
    by (simp add: w1)
  have "\<exists>s' ds. process_writers now_w wevs s1 =
           Inr (s', drop (length (handled (now_w - HTTP_TIMEOUT) (wfds s1) (writer_head s1))) wevs) \<and>
           swept Writer_head 0 (now_w - HTTP_TIMEOUT) Wfds s1 s' ds"
    using assms(1,2,5-8) en by (intro process_writers_sweep) (simp_all add: w1 h1)
  then obtain s' r2 ds2 where w: "process_writers now_w wevs s1 = Inr (s', r2)"
    and sw2: "swept Writer_head 0 (now_w - HTTP_TIMEOUT) Wfds s1 s' ds2"
    by blast
  have m: "main_process now_r revs now_w wevs s = Inr s'"
    using r w by (simp add: main_process_def)
  have "youngest s' = Min (insert (youngest s1) (last_ts ` set ?ws))"
    using sw2 [unfolded swept_def drop_0] by (simp add: list_of_def w1)
  then have y: "youngest s' = Min (insert INT_MAX (last_ts ` (set ?rs \<union> set ?ws)))"
    by (simp add: y1 Min_insert_Min image_Un)
  have "select_tv (youngest s') now =
          (if \<forall>t\<in>last_ts ` (set ?rs \<union> set ?ws). INT_MAX \<le> t then None
           else Some (max 0 (Min (last_ts ` (set ?rs \<union> set ?ws)) + HTTP_TIMEOUT - now)))"
    by (rule select_tv_floor [OF _ y]) simp
  then have "select_tv (youngest s') now =
             (if \<forall>c\<in>set ?rs \<union> set ?ws. INT_MAX \<le> last_ts c then None
              else Some (max 0 (Min (last_ts ` (set ?rs \<union> set ?ws)) + HTTP_TIMEOUT - now)))"
    by simp
  with m y show ?thesis by blast
qed

section \<open>Concrete runs\<close>

lemmas run_defs =
  main_process_def process_writers_def process_readers_def process_generic_def
  process_loop.simps one_reader_def two_writers_def is_node_def node_def list_of_def
  HTTP_TIMEOUT_def INT_MAX_def track_youngest_def client_free_def Let_def set_list_def
  unlink_def insert_Diff_if insert_absorb get_fds_def FD_SET_def client_write_def
  client_read_def upd_def

lemma select_out_simps:
  "select_out n r {} = {}"
  "select_out n r (insert d fds) =
     (if n \<le> d \<or> d \<in> r then insert d (select_out n r fds) else select_out n r fds)"
  by (auto simp: select_out_def)

lemmas main_defs =
  main_iteration_def main_select_def main_accept_def select_out_simps two_accepted_def
  do_get_def insert_commute sent_def

theorem idle_eviction_at_threshold_witness:
  "(\<exists>s' ds.
       process_writers 103 [(\<lambda>n. n, 103)] two_writers =
         Inr (s', drop (length (handled (103 - HTTP_TIMEOUT) (wfds two_writers)
                                  (writer_head two_writers))) [(\<lambda>n. n, 103)]) \<and>
       closed s' = closed two_writers @ ds \<and>
       timed_out s' = timed_out two_writers @
         map fd (filter (\<lambda>c. HTTP_TIMEOUT \<le> 103 - last_ts c) (writer_head two_writers)) \<and>
       fd ` set (writer_head s') = fd ` set (writer_head two_writers) - set ds \<and>
       (\<forall>c\<in>set (writer_head two_writers).
          if HTTP_TIMEOUT \<le> 103 - last_ts c
          then fd c \<in> set ds \<and> fd c \<notin> fd ` set (writer_head s') \<and>
               fd c \<notin> rfds s' \<and> fd c \<notin> wfds s'
          else fd c \<notin> set (map fd (filter (\<lambda>c. HTTP_TIMEOUT \<le> 103 - last_ts c)
                                       (writer_head two_writers))) \<and>
               (fd c \<notin> wfds two_writers \<longrightarrow> c \<in> set (writer_head s') \<and> fd c \<notin> set ds))) \<and>
   (\<exists>s' ds.
       process_readers 103 [(Some ''X'', 103)] two_readers =
         Inr (s', drop (length (handled (103 - HTTP_TIMEOUT) (rfds two_readers)
                                  (reader_head two_readers))) [(Some ''X'', 103)]) \<and>
       closed s' = closed two_readers @ ds \<and>
       timed_out s' = timed_out two_readers @
         map fd (filter (\<lambda>c. HTTP_TIMEOUT \<le> 103 - last_ts c) (reader_head two_readers)) \<and>
       fd ` set (reader_head s') = fd ` set (reader_head two_readers) - set ds \<and>
       (\<forall>c\<in>set (reader_head two_readers).
          if HTTP_TIMEOUT \<le> 103 - last_ts c
          then fd c \<in> set ds \<and> fd c \<notin> fd ` set (reader_head s') \<and>
               fd c \<notin> rfds s' \<and> fd c \<notin> wfds s'
          else fd c \<notin> set (map fd (filter (\<lambda>c. HTTP_TIMEOUT \<le> 103 - last_ts c)
                                       (reader_head two_readers))) \<and>
               (fd c \<notin> rfds two_readers \<longrightarrow> c \<in> set (reader_head s') \<and> fd c \<notin> set ds)))"
proof (rule conjI)
  show "\<exists>s' ds.
       process_writers 103 [(\<lambda>n. n, 103)] two_writers =
         Inr (s', drop (length (handled (103 - HTTP_TIMEOUT) (wfds two_writers)
                                  (writer_head two_writers))) [(\<lambda>n. n, 103)]) \<and>
       closed s' = closed two_writers @ ds \<and>
       timed_out s' = timed_out two_writers @
         map fd (filter (\<lambda>c. HTTP_TIMEOUT \<le> 103 - last_ts c) (writer_head two_writers)) \<and>
       fd ` set (writer_head s') = fd ` set (writer_head two_writers) - set ds \<and>
       (\<forall>c\<in>set (writer_head two_writers).
          if HTTP_TIMEOUT \<le> 103 - last_ts c
          then fd c \<in> set ds \<and> fd c \<notin> fd ` set (writer_head s') \<and>
               fd c \<notin> rfds s' \<and> fd c \<notin> wfds s'
          else fd c \<notin> set (map fd (filter (\<lambda>c. HTTP_TIMEOUT \<le> 103 - last_ts c)
                                       (writer_head two_writers))) \<and>
               (fd c \<notin> wfds two_writers \<longrightarrow> c \<in> set (writer_head s') \<and> fd c \<notin> set ds))"
    by (rule idle_eviction_at_threshold [THEN conjunct1, rule_format])
      (simp add: two_writers_def one_reader_def at_most_asked_def handled_def HTTP_TIMEOUT_def)
  show "\<exists>s' ds.
       process_readers 103 [(Some ''X'', 103)] two_readers =
         Inr (s', drop (length (handled (103 - HTTP_TIMEOUT) (rfds two_readers)
                                  (reader_head two_readers))) [(Some ''X'', 103)]) \<and>
       closed s' = closed two_readers @ ds \<and>
       timed_out s' = timed_out two_readers @
         map fd (filter (\<lambda>c. HTTP_TIMEOUT \<le> 103 - last_ts c) (reader_head two_readers)) \<and>
       fd ` set (reader_head s') = fd ` set (reader_head two_readers) - set ds \<and>
       (\<forall>c\<in>set (reader_head two_readers).
          if HTTP_TIMEOUT \<le> 103 - last_ts c
          then fd c \<in> set ds \<and> fd c \<notin> fd ` set (reader_head s') \<and>
               fd c \<notin> rfds s' \<and> fd c \<notin> wfds s'
          else fd c \<notin> set (map fd (filter (\<lambda>c. HTTP_TIMEOUT \<le> 103 - last_ts c)
                                       (reader_head two_readers))) \<and>
               (fd c \<notin> rfds two_readers \<longrightarrow> c \<in> set (reader_head s') \<and> fd c \<notin> set ds))"
    by (rule idle_eviction_at_threshold [THEN conjunct2, rule_format])
      (simp add: two_readers_def two_writers_def one_reader_def handled_def HTTP_TIMEOUT_def
        bytes_def)
qed

theorem activity_floor_and_wait_witness:
  "\<exists>s'. main_process 103 [(Some (''GET / HTTP/1.0'' @ [CHR 0x0D, CHR 0x0A]), 103)] 103
            [(\<lambda>n. n, 103)] two_writers = Inr s' \<and>
         youngest s' =
           Min (insert INT_MAX (last_ts ` (set (reader_head two_writers) \<union>
                                            set (writer_head two_writers)))) \<and>
         select_tv (youngest s') 104 =
           (if \<forall>c\<in>set (reader_head two_writers) \<union> set (writer_head two_writers).
                 INT_MAX \<le> last_ts c then None
            else Some (max 0 (Min (last_ts ` (set (reader_head two_writers) \<union>
                                               set (writer_head two_writers))) +
                                HTTP_TIMEOUT - 104)))"
  by (rule activity_floor_and_wait)
    (simp_all add: two_writers_def one_reader_def at_most_asked_def handled_def HTTP_TIMEOUT_def
      bytes_def)

section \<open>Traversals in which a request completes\<close>

text \<open>
  C8. The claim fails on a traversal of the readers in which a request completes. In
  \<open>two_readers\<close> the reader on descriptor 7 was last active at 90: at time 103 its idle
  time is 13, above the threshold, and its descriptor is in \<^verbatim>\<open>rfds\<close>. The reader on
  descriptor 4, before it in the list, reads a blank line: \<^verbatim>\<open>do_get\<close> makes it the head
  of the writer list, and \<^verbatim>\<open>prev = &curr->next\<close> then points into the writer list. The
  traversal of the readers goes on there, with \<^verbatim>\<open>client_read\<close> and \<^verbatim>\<open>rfds\<close>: the writer
  on descriptor 5 is read from, taken for a reader in state 1 and freed; the writer on
  descriptor 6 is timed out. The reader on descriptor 7 is not reached: after the
  traversal it is still in the reader list, its descriptor open and in \<^verbatim>\<open>rfds\<close>, and
  no timeout is logged for it. \<^verbatim>\<open>FD_SET(curr->fd, fds)\<close> also has set descriptor 4 in
  \<^verbatim>\<open>rfds\<close> again, which \<^verbatim>\<open>do_get\<close> had cleared.
\<close>

theorem idle_ready_reader_not_reached:
  "HTTP_TIMEOUT < 103 - last_ts (reader_head two_readers ! 1) \<and>
   fd (reader_head two_readers ! 1) \<in> rfds two_readers \<and>
   process_readers 103 [(Some [CHR 0x0D, CHR 0x0A], 103), (Some [CHR 0x0A], 103)] two_readers =
     Inr (two_readers\<lparr>reader_head := [\<lparr>fd = 7, state = 0, last_ts = 90, write_ofs = 0\<rparr>],
            writer_head := [\<lparr>fd = 4, state = 0, last_ts = 103, write_ofs = 0\<rparr>],
            youngest := 98, rfds := {3, 4, 7}, wfds := {4}, closed := [5, 6],
            stderr := [New_client 4, Closing_disconnect 5, Closing_timeout 6]\<rparr>, [])"
  by (simp add: run_defs two_readers_def do_get_def insert_commute)

text \<open>
  C1. The claim fails on a connection whose stream is exactly the request, when the last
  byte comes after the others. In the first iteration descriptor 4 reads
  \<^verbatim>\<open>GET / HTTP/1.0\r\n\r\<close>: \<^verbatim>\<open>do_get\<close> makes it a writer and clears it from \<^verbatim>\<open>rfds\<close>, the
  loop sets it in \<^verbatim>\<open>rfds\<close> again, and the first byte of the header is written to it. In
  the second iteration its last byte \<^verbatim>\<open>\n\<close> has come, and descriptor 5 reads a whole
  request: the traversal of the readers goes on in the writer list and calls
  \<^verbatim>\<open>client_read\<close> for descriptor 4, whose state is 0 since \<^verbatim>\<open>do_get\<close>. The byte is not
  \<^verbatim>\<open>G\<close>, the call returns 0 and the loop frees the node: descriptor 4 is closed with one
  byte of the response written, not the header and the body.
\<close>

theorem exact_request_cut_off:
  "main_iteration 3 (Some ({4}, {})) [] 101
     101 [(Some (''GET / HTTP/1.0'' @ [CHR 0x0D, CHR 0x0A, CHR 0x0D]), 101)]
     101 [(\<lambda>n. min 1 n, 101)] two_accepted = Inr (first_served, []) \<and>
   main_iteration 3 (Some ({4, 5}, {4})) [] 102
     102 [(Some (''GET / HTTP/1.0'' @ [CHR 0x0D, CHR 0x0A, CHR 0x0D, CHR 0x0A]), 102),
          (Some [CHR 0x0A], 102)]
     102 [(\<lambda>n. n, 102)] first_served = Inr (first_dropped, []) \<and>
   closed first_dropped = [4] \<and>
   stderr first_dropped = [New_client 4, New_client 5, Closing_disconnect 4] \<and>
   sent 4 first_dropped = ''2'' \<and>
   hdr first_dropped @ msg first_dropped =
     ''200'' @ [CHR 0x0D, CHR 0x0A, CHR 0x0D, CHR 0x0A] @ ''sopa''"
  by (simp add: main_defs run_defs first_served_def first_dropped_def)

text \<open>
  C10. The claim fails on a connection that is past the method and the space. Descriptor
  4, in state 4, reads the rest of its request line, a header line and a carriage
  return: the request is complete, \<^verbatim>\<open>do_get\<close> makes the node a writer in state 0, and
  the whole header is written to it, which leaves it in state 1. In the next iteration
  the line feed after the carriage return has come, and descriptor 5 reads a whole
  request: the traversal of the readers goes on in the writer list and calls
  \<^verbatim>\<open>client_read\<close> for descriptor 4. The read delivers a byte, the byte is not \<^verbatim>\<open>E\<close>,
  the call returns 0 from the branch of state 1 and the loop frees the node, logging a
  disconnect. The connection is closed by a byte it sent, two seconds after it was
  last active, with the header written and the body not.
\<close>

theorem rejected_after_request_line:
  "state (reader_head method_matched ! 1) = 4 \<and>
   main_iteration 3 (Some ({4}, {})) [] 101
     101 [(Some (''/ HTTP/1.1'' @ [CHR 0x0D, CHR 0x0A] @ ''Host: a'' @
                 [CHR 0x0D, CHR 0x0A, CHR 0x0D]), 101)]
     101 [(\<lambda>n. n, 101)] method_matched = Inr (header_sent, []) \<and>
   state (writer_head header_sent ! 0) = 1 \<and>
   while_len (state (writer_head header_sent ! 0)) [CHR 0x0A] = Return0 1 \<and>
   main_iteration 3 (Some ({4, 5}, {4})) [] 102
     102 [(Some (''GET / HTTP/1.0'' @ [CHR 0x0D, CHR 0x0A, CHR 0x0D, CHR 0x0A]), 102),
          (Some [CHR 0x0A], 102)]
     102 [(\<lambda>n. n, 102)] header_sent = Inr (header_only, []) \<and>
   closed header_only = [4] \<and>
   stderr header_only = [New_client 4, New_client 5, Closing_disconnect 4] \<and>
   sent 4 header_only = hdr header_only"
  by (simp add: main_defs run_defs method_matched_def header_sent_def header_only_def)

end
